theory Spec2Isabelle
  imports Main
begin

section \<open>Data model of the two raw queues\<close>

text \<open>
  Both queue tables (\<^verbatim>\<open>raw_tool_events\<close>, \<^verbatim>\<open>raw_summary_requests\<close>) share the
  lease columns; they are the base record, and each TypeScript interface
  (\<^verbatim>\<open>RawToolEvent\<close>, \<^verbatim>\<open>RawSummaryRequest\<close>) extends it with its own columns.
  The column \<^verbatim>\<open>id\<close> is called \<open>id_col\<close> here (\<open>id\<close> is the identity function
  of HOL).  Epochs are JavaScript millisecond timestamps (\<open>int\<close>), counters are \<open>nat\<close>,
  a nullable column is an \<open>option\<close>.  A table is the list of its rows in rowid order.
\<close>

datatype status = Pending | Summarizing | Completed | Failed

record queue_row =
  id_col :: nat
  session_db_id :: nat
  content_session_id :: string
  status :: status
  retry_count :: nat
  created_at_epoch :: int
  summarized_at_epoch :: "int option"
  error_message :: "string option"

record RawToolEvent = queue_row +
  tool_name :: string
  tool_input :: "string option"
  tool_response :: "string option"
  cwd :: "string option"
  prompt_number :: "int option"
  project :: "string option"
  observation_id :: "nat option"

record RawSummaryRequest = queue_row +
  memory_session_id :: "string option"
  request_project :: string
  user_prompt :: string
  last_assistant_message :: "string option"
  summary_id :: "nat option"

section \<open>The SQL statements the stores issue\<close>

text \<open>
  \<^verbatim>\<open>UPDATE t SET ... WHERE ...\<close> rewrites every row that satisfies the condition and
  reports the number of rows changed; \<^verbatim>\<open>DELETE\<close> removes them;
  \<^verbatim>\<open>SELECT ... WHERE ... ORDER BY k ASC LIMIT n\<close> filters, sorts (rows with equal keys
  stay in rowid order) and cuts; \<^verbatim>\<open>.get()\<close> yields the first matching row, if any.
\<close>

definition sql_update :: "('r \<Rightarrow> bool) \<Rightarrow> ('r \<Rightarrow> 'r) \<Rightarrow> 'r list \<Rightarrow> 'r list \<times> nat" where
  "sql_update cond assign tbl =
     (map (\<lambda>r. if cond r then assign r else r) tbl, length (filter cond tbl))"

definition sql_delete :: "('r \<Rightarrow> bool) \<Rightarrow> 'r list \<Rightarrow> 'r list \<times> nat" where
  "sql_delete cond tbl = (filter (\<lambda>r. \<not> cond r) tbl, length (filter cond tbl))"

definition sql_select :: "('r \<Rightarrow> bool) \<Rightarrow> ('r \<Rightarrow> int) \<Rightarrow> nat \<Rightarrow> 'r list \<Rightarrow> 'r list" where
  "sql_select cond key lim tbl = take lim (sort_key key (filter cond tbl))"

definition sql_get :: "('r \<Rightarrow> bool) \<Rightarrow> 'r list \<Rightarrow> 'r option" where
  "sql_get cond tbl = (case filter cond tbl of [] \<Rightarrow> None | r # _ \<Rightarrow> Some r)"

definition sql_count :: "('r \<Rightarrow> bool) \<Rightarrow> 'r list \<Rightarrow> nat" where
  "sql_count cond tbl = length (filter cond tbl)"

section \<open>Store operations common to both queues\<close>

text \<open>
  \<^verbatim>\<open>claimBatchForSummarization\<close>, \<^verbatim>\<open>markFailed\<close> have the same body in
  \<^verbatim>\<open>RawToolEventStore\<close> and \<^verbatim>\<open>RawSummaryRequestStore\<close> (only the table name
  differs), so one definition over the base record embeds both.  The transaction of the
  claim is one state transition: the returned batch holds the rows as they were selected.
  \<open>limit\<close> is the row count handed to \<^verbatim>\<open>LIMIT\<close>; \<open>maxRetries\<close> is the field of the
  store set by its constructor (default 3).
\<close>

definition claimBatchForSummarization ::
  "nat \<Rightarrow> ('a queue_row_scheme) list \<Rightarrow> ('a queue_row_scheme) list \<times> ('a queue_row_scheme) list" where
  "claimBatchForSummarization limit tbl =
     (let batch = sql_select (\<lambda>r. status r = Pending) created_at_epoch limit tbl
      in if length batch > 0
         then (let ids = map id_col batch
               in (batch, fst (sql_update (\<lambda>r. id_col r \<in> set ids) (\<lambda>r. r\<lparr>status := Summarizing\<rparr>) tbl)))
         else (batch, tbl))"

definition markFailed ::
  "nat \<Rightarrow> ('a queue_row_scheme) list \<Rightarrow> nat \<Rightarrow> string \<Rightarrow> ('a queue_row_scheme) list" where
  "markFailed maxRetries tbl i errorMessage =
     (let currentRetries = (case sql_get (\<lambda>r. id_col r = i) tbl of None \<Rightarrow> 0 | Some e \<Rightarrow> retry_count e);
          newRetryCount = currentRetries + 1
      in if newRetryCount \<ge> maxRetries
         then fst (sql_update (\<lambda>r. id_col r = i)
                (\<lambda>r. r\<lparr>status := Failed, retry_count := newRetryCount, error_message := Some errorMessage\<rparr>) tbl)
         else fst (sql_update (\<lambda>r. id_col r = i)
                (\<lambda>r. r\<lparr>status := Pending, retry_count := newRetryCount, error_message := Some errorMessage\<rparr>) tbl))"

section \<open>RawToolEventStore\<close>

text \<open>
  \<^verbatim>\<open>releaseStuckEvents(olderThanMs = 300000)\<close>: \<open>now\<close> is the value of
  \<^verbatim>\<open>Date.now()\<close>; the result is the new table and \<^verbatim>\<open>result.changes\<close>.
\<close>

definition releaseStuckEvents :: "int \<Rightarrow> int \<Rightarrow> RawToolEvent list \<Rightarrow> RawToolEvent list \<times> nat" where
  "releaseStuckEvents now olderThanMs tbl =
     (let threshold = now - olderThanMs
      in sql_update (\<lambda>r. status r = Summarizing \<and> created_at_epoch r < threshold)
           (\<lambda>r. r\<lparr>status := Pending\<rparr>) tbl)"

definition releaseStuckEvents_default :: int where
  "releaseStuckEvents_default = 300000"

definition markCompleted :: "int \<Rightarrow> RawToolEvent list \<Rightarrow> nat \<Rightarrow> nat \<Rightarrow> RawToolEvent list" where
  "markCompleted now tbl i observationId =
     fst (sql_update (\<lambda>r. id_col r = i)
       (\<lambda>r. r\<lparr>status := Completed, observation_id := Some observationId,
               summarized_at_epoch := Some now\<rparr>) tbl)"

definition deleteCompleted :: "int \<Rightarrow> RawToolEvent list \<Rightarrow> RawToolEvent list \<times> nat" where
  "deleteCompleted olderThanEpoch tbl =
     sql_delete (\<lambda>r. status r = Completed \<and>
        (case summarized_at_epoch r of None \<Rightarrow> False | Some t \<Rightarrow> t < olderThanEpoch)) tbl"

text \<open>
  \<^verbatim>\<open>insertRaw\<close>.  The payloads \<^verbatim>\<open>tool_input\<close> and \<^verbatim>\<open>tool_response\<close> have the
  TypeScript type \<^verbatim>\<open>any\<close>.  A value of that type is represented by what the function
  observes of it: whether it is a string (and then which), whether it is truthy, and the
  text \<^verbatim>\<open>JSON.stringify\<close> yields for it.  A string is truthy when it is not empty;
  each character stands for one UTF-16 code unit, which is what \<^verbatim>\<open>.length\<close> and
  \<^verbatim>\<open>.slice\<close> count.  An absent optional property is \<open>None\<close>.  The payloads are
  parsed JSON bodies, for which \<^verbatim>\<open>JSON.stringify\<close> always yields a text.  The
  database accepts every insert (a write the store rejects is outside the model).
\<close>

datatype js_any = JsString string string | JsOther bool string

fun truthy :: "js_any \<Rightarrow> bool" where
  "truthy (JsString s j) = (s \<noteq> [])"
| "truthy (JsOther t j) = t"

fun JSON_stringify :: "js_any \<Rightarrow> string" where
  "JSON_stringify (JsString s j) = j"
| "JSON_stringify (JsOther t j) = j"

record RawToolEventInput =
  in_tool_name :: string
  in_tool_input :: "js_any option"
  in_tool_response :: "js_any option"
  in_cwd :: "string option"
  in_prompt_number :: "int option"
  in_project :: "string option"

definition or_null_string :: "string option \<Rightarrow> string option" where
  "or_null_string v = (case v of None \<Rightarrow> None | Some s \<Rightarrow> if s = [] then None else Some s)"

definition or_null_number :: "int option \<Rightarrow> int option" where
  "or_null_number v = (case v of None \<Rightarrow> None | Some n \<Rightarrow> if n = 0 then None else Some n)"

definition truncation_marker :: string where
  "truncation_marker = ''... [truncated]''"

text \<open>
  Modelled from the spec: the \<^verbatim>\<open>CREATE TABLE raw_tool_events\<close> statement is in a migration
  that is not among the source files.  The spec gives the key as "id (monotonic)" and says that an
  insert "always creates a row with status=pending, retry_count=0"; the sibling table
  \<^verbatim>\<open>raw_summary_requests\<close>, whose schema is in the sources, declares
  \<^verbatim>\<open>id INTEGER PRIMARY KEY AUTOINCREMENT\<close> and \<^verbatim>\<open>retry_count INTEGER DEFAULT 0\<close>.
  So a new row gets a key above every key of the table, the columns the
  \<^verbatim>\<open>INSERT\<close> does not name are \<^verbatim>\<open>NULL\<close>, and \<open>retry_count\<close> is 0.
  The key is the largest key of the table plus one: a table whose newest row has been
  deleted issues that key again, which \<^verbatim>\<open>AUTOINCREMENT\<close> would not.  The properties
  below use of the new key only that no row of the table has it.
\<close>

definition next_rowid :: "('a queue_row_scheme) list \<Rightarrow> nat" where
  "next_rowid tbl = Suc (foldr max (map id_col tbl) 0)"

definition default_retry_count :: nat where
  "default_retry_count = 0"

definition insertRaw ::
  "nat \<Rightarrow> int \<Rightarrow> RawToolEvent list \<Rightarrow> nat \<Rightarrow> string \<Rightarrow> RawToolEventInput \<Rightarrow> nat \<times> RawToolEvent list" where
  "insertRaw maxResponseLength now tbl sessionDbId contentSessionId data =
     (let truncatedResponse =
            (case in_tool_response data of
               None \<Rightarrow> None
             | Some v \<Rightarrow>
                 if truthy v
                 then (let responseStr = (case v of JsString s j \<Rightarrow> s | JsOther t j \<Rightarrow> JSON_stringify v)
                       in Some (if length responseStr > maxResponseLength
                                then take maxResponseLength responseStr @ truncation_marker
                                else responseStr))
                 else None);
          lastInsertRowid = next_rowid tbl
      in (lastInsertRowid,
          tbl @ [\<lparr> id_col = lastInsertRowid,
                   session_db_id = sessionDbId,
                   content_session_id = contentSessionId,
                   status = Pending,
                   retry_count = default_retry_count,
                   created_at_epoch = now,
                   summarized_at_epoch = None,
                   error_message = None,
                   tool_name = in_tool_name data,
                   tool_input = (case in_tool_input data of
                                   None \<Rightarrow> None
                                 | Some v \<Rightarrow> if truthy v then Some (JSON_stringify v) else None),
                   tool_response = truncatedResponse,
                   cwd = or_null_string (in_cwd data),
                   prompt_number = or_null_number (in_prompt_number data),
                   project = or_null_string (in_project data),
                   observation_id = None \<rparr>]))"

definition default_maxRetries :: nat where
  "default_maxRetries = 3"

definition default_maxResponseLength :: nat where
  "default_maxResponseLength = 50000"

section \<open>RawSummaryRequestStore\<close>

record RawSummaryRequestInput =
  in_memory_session_id :: "string option"
  in_request_project :: string
  in_user_prompt :: string
  in_last_assistant_message :: "string option"

definition insertRaw_summary ::
  "int \<Rightarrow> RawSummaryRequest list \<Rightarrow> nat \<Rightarrow> string \<Rightarrow> RawSummaryRequestInput \<Rightarrow> nat \<times> RawSummaryRequest list" where
  "insertRaw_summary now tbl sessionDbId contentSessionId data =
     (let lastInsertRowid = next_rowid tbl
      in (lastInsertRowid,
          tbl @ [\<lparr> id_col = lastInsertRowid,
                   session_db_id = sessionDbId,
                   content_session_id = contentSessionId,
                   status = Pending,
                   retry_count = 0,
                   created_at_epoch = now,
                   summarized_at_epoch = None,
                   error_message = None,
                   memory_session_id = or_null_string (in_memory_session_id data),
                   request_project = in_request_project data,
                   user_prompt = in_user_prompt data,
                   last_assistant_message = or_null_string (in_last_assistant_message data),
                   summary_id = None \<rparr>]))"

definition markCompleted_summary ::
  "int \<Rightarrow> RawSummaryRequest list \<Rightarrow> nat \<Rightarrow> nat \<Rightarrow> RawSummaryRequest list" where
  "markCompleted_summary now tbl i summaryId =
     fst (sql_update (\<lambda>r. id_col r = i)
       (\<lambda>r. r\<lparr>status := Completed, summary_id := Some summaryId,
               summarized_at_epoch := Some now\<rparr>) tbl)"

definition releaseStuckRequests :: "RawSummaryRequest list \<Rightarrow> RawSummaryRequest list \<times> nat" where
  "releaseStuckRequests tbl =
     sql_update (\<lambda>r. status r = Summarizing) (\<lambda>r. r\<lparr>status := Pending\<rparr>) tbl"

definition hasPendingForSession :: "RawSummaryRequest list \<Rightarrow> nat \<Rightarrow> bool" where
  "hasPendingForSession tbl sessionDbId =
     (sql_count (\<lambda>r. session_db_id r = sessionDbId \<and> status r \<in> {Pending, Summarizing}) tbl > 0)"

section \<open>The collaborators of the workers\<close>

text \<open>
  The session store, the XML parser, the mode configuration and the network are outside
  the pipeline.  A worker sees them through the results of its calls, so they are the
  fields of an environment: \<open>getSessionById\<close> and \<open>storeObservations\<close> of the session
  store (the latter returns the ids it assigned), the two parsers, the prompt builders
  (string templates over the mode configuration) and \<open>callLLM\<close> (the provider call with
  its timeout).  A call that throws is \<open>Inl\<close> of the message of the error.  The type
  variables \<open>'o\<close> and \<open>'s\<close> are the parsed observation and the parsed summary.
\<close>

record session_record =
  sess_memory_session_id :: "string option"
  sess_project :: string

record LLMResponse =
  content :: string
  totalTokens :: nat

record store_result =
  observationIds :: "nat list"
  summaryId :: "nat option"

record ('o, 's) collaborators =
  getSessionById :: "nat \<Rightarrow> session_record option"
  storeObservations ::
    "string \<Rightarrow> string \<Rightarrow> 'o list \<Rightarrow> 's option \<Rightarrow> int \<Rightarrow> nat \<Rightarrow> string + store_result"
  parseObservations :: "string \<Rightarrow> string \<Rightarrow> 'o list"
  parseSummary :: "string \<Rightarrow> nat \<Rightarrow> 's option"
  buildBatchPrompt :: "RawToolEvent list \<Rightarrow> string \<Rightarrow> string"
  buildSummaryPrompt :: "RawSummaryRequest \<Rightarrow> string"
  callLLM :: "string \<Rightarrow> string + LLMResponse"

fun show_nat :: "nat \<Rightarrow> string" where
  "show_nat n =
     (if n < 10 then [char_of (48 + n)]
      else show_nat (n div 10) @ [char_of (48 + n mod 10)])"

text \<open>
  \<^verbatim>\<open>xs[k]\<close> of JavaScript is \<^verbatim>\<open>undefined\<close> outside the array; \<^verbatim>\<open>v || 0\<close> turns
  \<^verbatim>\<open>undefined\<close> (and 0) into 0, \<^verbatim>\<open>v || 1\<close> turns \<^verbatim>\<open>null\<close> and 0 into 1.
\<close>

definition js_index :: "'a list \<Rightarrow> int \<Rightarrow> 'a option" where
  "js_index xs k = (if 0 \<le> k \<and> k < int (length xs) then Some (xs ! nat k) else None)"

definition or_zero :: "nat option \<Rightarrow> nat" where
  "or_zero v = (case v of None \<Rightarrow> 0 | Some n \<Rightarrow> n)"

definition or_one :: "int option \<Rightarrow> int" where
  "or_one v = (case v of None \<Rightarrow> 1 | Some n \<Rightarrow> if n = 0 then 1 else n)"

section \<open>The state of a summarizer worker\<close>

text \<open>
  The fields of the two worker classes: \<open>running\<close> says that \<^verbatim>\<open>interval\<close> is not
  \<^verbatim>\<open>null\<close>; \<open>processed\<close>, \<open>failed\<close>, \<open>lastRunAt\<close> (and \<open>lastCleanupAt\<close> of the event
  worker) are its \<^verbatim>\<open>stats\<close>.  A constructor option that is absent or 0 takes the default.
  \<^verbatim>\<open>Date.now()\<close> is read once per timer tick in this model (the argument \<open>now\<close>).
\<close>

record summarizer =
  running :: bool
  isProcessing :: bool
  processed :: nat
  failed :: nat
  lastRunAt :: "int option"
  batchCounter :: nat
  intervalMs :: nat
  batchSize :: nat
  timeoutMs :: nat

record RawEventSummarizer = summarizer +
  lastCleanupAt :: "int option"

record summarizer_options =
  opt_intervalMs :: "nat option"
  opt_batchSize :: "nat option"
  opt_timeoutMs :: "nat option"

definition or_default :: "nat option \<Rightarrow> nat \<Rightarrow> nat" where
  "or_default v d = (case v of None \<Rightarrow> d | Some n \<Rightarrow> if n = 0 then d else n)"

definition new_RawEventSummarizer :: "summarizer_options option \<Rightarrow> RawEventSummarizer" where
  "new_RawEventSummarizer options =
     \<lparr> running = False, isProcessing = False, processed = 0, failed = 0, lastRunAt = None,
       batchCounter = 0,
       intervalMs = or_default (case options of None \<Rightarrow> None | Some o' \<Rightarrow> opt_intervalMs o') 10000,
       batchSize = or_default (case options of None \<Rightarrow> None | Some o' \<Rightarrow> opt_batchSize o') 10,
       timeoutMs = or_default (case options of None \<Rightarrow> None | Some o' \<Rightarrow> opt_timeoutMs o') 60000,
       lastCleanupAt = None \<rparr>"

definition new_RawSummarySummarizer :: "summarizer_options option \<Rightarrow> summarizer" where
  "new_RawSummarySummarizer options =
     \<lparr> running = False, isProcessing = False, processed = 0, failed = 0, lastRunAt = None,
       batchCounter = 0,
       intervalMs = or_default (case options of None \<Rightarrow> None | Some o' \<Rightarrow> opt_intervalMs o') 10000,
       batchSize = or_default (case options of None \<Rightarrow> None | Some o' \<Rightarrow> opt_batchSize o') 5,
       timeoutMs = or_default (case options of None \<Rightarrow> None | Some o' \<Rightarrow> opt_timeoutMs o') 60000 \<rparr>"

section \<open>RawEventSummarizer\<close>

definition cleanupEveryNBatches :: nat where
  "cleanupEveryNBatches = 100"

definition completedRetentionMs :: int where
  "completedRetentionMs = 60 * 60 * 1000"

text \<open>\<^verbatim>\<open>start()\<close>: the call \<^verbatim>\<open>releaseStuckEvents()\<close> passes no argument, so the
  parameter takes its default.\<close>

definition start_events ::
  "int \<Rightarrow> RawEventSummarizer \<Rightarrow> RawToolEvent list \<Rightarrow> RawEventSummarizer \<times> RawToolEvent list" where
  "start_events now w tbl =
     (if running w then (w, tbl)
      else (let released = releaseStuckEvents now releaseStuckEvents_default tbl
            in (w\<lparr>running := True\<rparr>, fst released)))"

definition stop_worker :: "'a summarizer_scheme \<Rightarrow> 'a summarizer_scheme" where
  "stop_worker w = (if running w then w\<lparr>running := False\<rparr> else w)"

definition cleanupCompletedEvents ::
  "int \<Rightarrow> RawEventSummarizer \<Rightarrow> RawToolEvent list \<Rightarrow> RawEventSummarizer \<times> RawToolEvent list" where
  "cleanupCompletedEvents now w tbl =
     (let threshold = now - completedRetentionMs;
          deleted = deleteCompleted threshold tbl
      in (w\<lparr>lastCleanupAt := Some now\<rparr>, fst deleted))"

text \<open>
  \<^verbatim>\<open>groupBySession\<close> builds an object keyed by \<^verbatim>\<open>String(session_db_id)\<close>.
  \<^verbatim>\<open>Object.entries\<close> lists first the keys that are array indices (the integers below
  4294967295) in ascending order, then the other keys in the order they were added.  So
  the accumulator is an association list in that order, each group in the order of the
  batch.
\<close>

definition is_array_index :: "nat \<Rightarrow> bool" where
  "is_array_index k = (k < 4294967295)"

fun push_event :: "RawToolEvent \<Rightarrow> (nat \<times> RawToolEvent list) list \<Rightarrow> (nat \<times> RawToolEvent list) list" where
  "push_event e [] = [(session_db_id e, [e])]"
| "push_event e ((k, es) # acc) =
     (if session_db_id e = k then (k, es @ [e]) # acc
      else if is_array_index (session_db_id e)
      then (if is_array_index k \<and> k < session_db_id e then (k, es) # push_event e acc
            else (session_db_id e, [e]) # (k, es) # acc)
      else (k, es) # push_event e acc)"

definition groupBySession :: "RawToolEvent list \<Rightarrow> (nat \<times> RawToolEvent list) list" where
  "groupBySession events = fold push_event events []"

text \<open>The \<^verbatim>\<open>catch\<close> block of \<^verbatim>\<open>summarizeSessionEvents\<close>.\<close>

definition fail_events ::
  "nat \<Rightarrow> string \<Rightarrow> RawToolEvent list \<Rightarrow> RawEventSummarizer \<Rightarrow> RawToolEvent list
     \<Rightarrow> RawEventSummarizer \<times> RawToolEvent list" where
  "fail_events maxRetries message events w tbl =
     (w\<lparr>failed := failed w + length events\<rparr>,
      fold (\<lambda>event t. markFailed maxRetries t (id_col event) message) events tbl)"

definition obsId_for :: "nat list \<Rightarrow> nat \<Rightarrow> nat" where
  "obsId_for ids i = or_zero (js_index ids (min (int i) (int (length ids) - 1)))"

definition summarizeSessionEvents ::
  "('o, 's) collaborators \<Rightarrow> nat \<Rightarrow> int \<Rightarrow> nat \<Rightarrow> RawToolEvent list \<Rightarrow> RawEventSummarizer
     \<Rightarrow> RawToolEvent list \<Rightarrow> RawEventSummarizer \<times> RawToolEvent list" where
  "summarizeSessionEvents env maxRetries now sessionDbId events w tbl =
     (case getSessionById env sessionDbId of
        None \<Rightarrow> fail_events maxRetries (''Session '' @ show_nat sessionDbId @ '' not found'') events w tbl
      | Some sessionRecord \<Rightarrow>
          (case or_null_string (sess_memory_session_id sessionRecord) of
             None \<Rightarrow> fail_events maxRetries
                       (''Session '' @ show_nat sessionDbId @ '' missing memory_session_id'') events w tbl
           | Some memorySessionId \<Rightarrow>
             (case callLLM env (buildBatchPrompt env events (sess_project sessionRecord)) of
                Inl message \<Rightarrow> fail_events maxRetries message events w tbl
              | Inr response \<Rightarrow>
                  (case events of
                     [] \<Rightarrow> fail_events maxRetries ''Cannot read properties of undefined'' events w tbl
                   | first # _ \<Rightarrow>
                       (let observations =
                              parseObservations env (content response) (content_session_id first)
                        in if length observations = 0
                           then (w\<lparr>processed := processed w + length events\<rparr>,
                                 fold (\<lambda>event t. markCompleted now t (id_col event) 0) events tbl)
                           else
                             (case storeObservations env memorySessionId
                                     (sess_project sessionRecord) observations None
                                     (or_one (prompt_number first)) (totalTokens response) of
                                Inl message \<Rightarrow> fail_events maxRetries message events w tbl
                              | Inr result \<Rightarrow>
                                  (w\<lparr>processed := processed w + length events\<rparr>,
                                   fold (\<lambda>i t. markCompleted now t (id_col (events ! i))
                                                  (obsId_for (observationIds result) i))
                                     [0..<length events] tbl)))))))"

text \<open>
  \<^verbatim>\<open>processBatch\<close>, one timer tick.  The reentrancy guard skips the tick when
  \<open>isProcessing\<close> is set; the \<^verbatim>\<open>finally\<close> block clears the flag on every other path.
\<close>

definition processBatch_events ::
  "('o, 's) collaborators \<Rightarrow> nat \<Rightarrow> int \<Rightarrow> RawEventSummarizer \<Rightarrow> RawToolEvent list
     \<Rightarrow> RawEventSummarizer \<times> RawToolEvent list" where
  "processBatch_events env maxRetries now w tbl =
     (if isProcessing w then (w, tbl)
      else
        (let w1 = w\<lparr>isProcessing := True, batchCounter := batchCounter w + 1\<rparr>;
             (w2, tbl1) = (if batchCounter w1 mod cleanupEveryNBatches = 0
                           then cleanupCompletedEvents now w1 tbl else (w1, tbl));
             (batch, tbl2) = claimBatchForSummarization (batchSize w2) tbl1
         in if length batch = 0 then (w2\<lparr>isProcessing := False\<rparr>, tbl2)
            else
              (let (w3, tbl3) =
                     fold (\<lambda>(sessionDbId, events) (v, t).
                             summarizeSessionEvents env maxRetries now sessionDbId events v t)
                       (groupBySession batch) (w2, tbl2)
               in (w3\<lparr>lastRunAt := Some now, isProcessing := False\<rparr>, tbl3))))"

section \<open>RawSummarySummarizer\<close>

definition staleCheckEveryNBatches :: nat where
  "staleCheckEveryNBatches = 30"

definition start_summary ::
  "summarizer \<Rightarrow> RawSummaryRequest list \<Rightarrow> summarizer \<times> RawSummaryRequest list" where
  "start_summary w tbl =
     (if running w then (w, tbl)
      else (let released = releaseStuckRequests tbl
            in (w\<lparr>running := True\<rparr>, fst released)))"

definition summarizeRequest ::
  "('o, 's) collaborators \<Rightarrow> nat \<Rightarrow> int \<Rightarrow> RawSummaryRequest \<Rightarrow> summarizer
     \<Rightarrow> RawSummaryRequest list \<Rightarrow> summarizer \<times> RawSummaryRequest list" where
  "summarizeRequest env maxRetries now request w tbl =
     (let catch = (\<lambda>message. (w\<lparr>failed := failed w + 1\<rparr>,
                              markFailed maxRetries tbl (id_col request) message))
      in case callLLM env (buildSummaryPrompt env request) of
           Inl message \<Rightarrow> catch message
         | Inr response \<Rightarrow>
             (case parseSummary env (content response) (session_db_id request) of
                None \<Rightarrow> catch ''Failed to parse summary from LLM response''
              | Some summary \<Rightarrow>
                  (case (case getSessionById env (session_db_id request) of
                           None \<Rightarrow> None | Some sessionRecord \<Rightarrow> or_null_string (sess_memory_session_id sessionRecord)) of
                     None \<Rightarrow> catch (''No memory_session_id for session '' @ show_nat (session_db_id request))
                   | Some memorySessionId \<Rightarrow>
                       (case storeObservations env memorySessionId (request_project request) []
                               (Some summary) 1 (totalTokens response) of
                          Inl message \<Rightarrow> catch message
                        | Inr result \<Rightarrow>
                            (w\<lparr>processed := processed w + 1\<rparr>,
                             markCompleted_summary now tbl (id_col request)
                               (or_zero (summaryId result)))))))"

definition processBatch_summary ::
  "('o, 's) collaborators \<Rightarrow> nat \<Rightarrow> int \<Rightarrow> summarizer \<Rightarrow> RawSummaryRequest list
     \<Rightarrow> summarizer \<times> RawSummaryRequest list" where
  "processBatch_summary env maxRetries now w tbl =
     (if isProcessing w then (w, tbl)
      else
        (let w1 = w\<lparr>isProcessing := True, batchCounter := batchCounter w + 1\<rparr>;
             tbl1 = (if batchCounter w1 mod staleCheckEveryNBatches = 0
                     then fst (releaseStuckRequests tbl) else tbl);
             (batch, tbl2) = claimBatchForSummarization (batchSize w1) tbl1
         in if length batch = 0 then (w1\<lparr>isProcessing := False\<rparr>, tbl2)
            else
              (let (w3, tbl3) =
                     fold (\<lambda>request (v, t). summarizeRequest env maxRetries now request v t)
                       batch (w1, tbl2)
               in (w3\<lparr>lastRunAt := Some now, isProcessing := False\<rparr>, tbl3))))"

section \<open>ProcessTracker\<close>

text \<open>
  A \<^verbatim>\<open>SpawnedProcess\<close> is the handle of a child process together with the process it
  stands for.  \<open>killed\<close> and \<open>exitCode\<close> are the fields of the handle the tracker reads:
  the runtime sets \<open>killed\<close> as soon as \<^verbatim>\<open>kill()\<close> has delivered a signal, and
  \<open>exitCode\<close> when the process has exited with a code.  \<open>os_alive\<close> says that the pid
  exists.  The remaining fields say how the process behaves: \<open>exit_in\<close> is the time in
  milliseconds after which a process on its way out is gone, \<open>on_sigterm\<close> the time it
  needs to exit after the polite signal (\<open>None\<close> when it ignores the signal),
  \<open>on_sigkill\<close> the time the system needs after the forceful one, and \<open>exit_status\<close>
  the code it exits with (\<open>None\<close> when a signal ends it).
\<close>

datatype signal = SIGTERM | SIGKILL

record SpawnedProcess =
  killed :: bool
  exitCode :: "int option"
  os_alive :: bool
  exit_in :: "nat option"
  on_sigterm :: "nat option"
  on_sigkill :: nat
  exit_status :: "int option"

record TrackedProcess =
  process :: SpawnedProcess
  pid :: nat
  sessionDbId :: nat
  spawnedAt :: int
  command :: string

definition exit_now :: "SpawnedProcess \<Rightarrow> SpawnedProcess" where
  "exit_now p = p\<lparr>os_alive := False, exit_in := None, exitCode := exit_status p\<rparr>"

definition elapse :: "nat \<Rightarrow> SpawnedProcess \<Rightarrow> SpawnedProcess" where
  "elapse ms p =
     (case exit_in p of
        None \<Rightarrow> p
      | Some d \<Rightarrow> if os_alive p \<and> d \<le> ms then exit_now p else p\<lparr>exit_in := Some (d - ms)\<rparr>)"

definition sooner :: "nat option \<Rightarrow> nat option \<Rightarrow> nat option" where
  "sooner a b =
     (case a of None \<Rightarrow> b | Some x \<Rightarrow> (case b of None \<Rightarrow> Some x | Some y \<Rightarrow> Some (min x y)))"

text \<open>\<^verbatim>\<open>proc.kill(signal)\<close>: delivers the signal to a process that exists, sets
  \<open>killed\<close> and returns \<^verbatim>\<open>true\<close>; returns \<^verbatim>\<open>false\<close> when the process is gone.\<close>

definition kill_proc :: "signal \<Rightarrow> SpawnedProcess \<Rightarrow> bool \<times> SpawnedProcess" where
  "kill_proc sig p =
     (if os_alive p
      then (True, p\<lparr>killed := True,
                     exit_in := sooner (exit_in p)
                        (case sig of SIGTERM \<Rightarrow> on_sigterm p | SIGKILL \<Rightarrow> Some (on_sigkill p))\<rparr>)
      else (False, p))"

text \<open>\<^verbatim>\<open>waitForExit\<close>: the promise resolves to \<^verbatim>\<open>true\<close> at once when the handle
  already has an exit code or is \<open>killed\<close>; otherwise to \<^verbatim>\<open>true\<close> when the exit event
  comes before the timer, and to \<^verbatim>\<open>false\<close> when the timer fires.\<close>

definition waitForExit :: "SpawnedProcess \<Rightarrow> nat \<Rightarrow> bool \<times> SpawnedProcess" where
  "waitForExit proc timeout =
     (if exitCode proc \<noteq> None \<or> killed proc then (True, proc)
      else (case exit_in proc of
              None \<Rightarrow> (False, proc)
            | Some d \<Rightarrow> if os_alive proc \<and> d < timeout then (True, exit_now proc)
                        else (False, elapse timeout proc)))"

text \<open>\<^verbatim>\<open>verifyProcessDead\<close>: the probe \<^verbatim>\<open>process.kill(pid, 0)\<close> throws exactly when
  no process has the pid.\<close>

definition verifyProcessDead :: "SpawnedProcess \<Rightarrow> bool" where
  "verifyProcessDead p = (if os_alive p then False else True)"

text \<open>
  \<^verbatim>\<open>terminateProcess(sessionDbId, gracefulTimeoutMs = 5000)\<close> returns its result, the
  map \<^verbatim>\<open>trackedProcesses\<close> after the call and the process as it is when the call
  returns (\<open>None\<close> when no process was tracked for the session).  The handler that
  removes the entry when the child exits is not modelled: past its first two checks the
  function removes the entry itself on every path.
\<close>

definition terminateProcess ::
  "(nat \<rightharpoonup> TrackedProcess) \<Rightarrow> nat \<Rightarrow> nat \<Rightarrow> bool \<times> (nat \<rightharpoonup> TrackedProcess) \<times> SpawnedProcess option" where
  "terminateProcess trackedProcesses sid gracefulTimeoutMs =
     (case trackedProcesses sid of
        None \<Rightarrow> (True, trackedProcesses, None)
      | Some tracked \<Rightarrow>
          (let proc = process tracked
           in if killed proc \<or> exitCode proc \<noteq> None
              then (True, trackedProcesses(sid := None), Some proc)
              else
                (let (sent, proc1) = kill_proc SIGTERM proc;
                     (exited, proc2) = waitForExit proc1 gracefulTimeoutMs
                 in if exited then (True, trackedProcesses(sid := None), Some proc2)
                    else
                      (let (sent', proc3) = kill_proc SIGKILL proc2;
                           (exited', proc4) = waitForExit proc3 2000;
                           isDead = verifyProcessDead proc4
                       in (isDead, trackedProcesses(sid := None), Some proc4)))))"

definition default_gracefulTimeoutMs :: nat where
  "default_gracefulTimeoutMs = 5000"

section \<open>Runs of the queues and the predicates the properties use\<close>

text \<open>
  The runs of a queue.  The header of \<^verbatim>\<open>RawToolEventStore\<close> gives the lifecycle of a
  row: \<open>insertRaw\<close> (pending), \<open>claimBatchForSummarization\<close> (summarizing), then
  \<open>markCompleted\<close> or \<open>markFailed\<close>; the workers call the last two only on rows of the
  batch they have claimed, and a failed row is never claimed again.  So a run starts
  from the empty table and applies the operations of the store in any order and with
  any arguments, \<open>markCompleted\<close> and \<open>markFailed\<close> on a row that has not already
  failed.
\<close>

definition retry_budget_inv :: "nat \<Rightarrow> ('a queue_row_scheme) list \<Rightarrow> bool" where
  "retry_budget_inv maxRetries tbl \<longleftrightarrow>
     distinct (map id_col tbl) \<and>
     list_all (\<lambda>r. if status r = Failed then retry_count r = maxRetries
                    else retry_count r < maxRetries) tbl"

inductive event_queue_run :: "nat \<Rightarrow> nat \<Rightarrow> RawToolEvent list \<Rightarrow> bool"
  for maxRetries :: nat and maxResponseLength :: nat where
  run_empty: "event_queue_run maxRetries maxResponseLength []"
| run_insertRaw:
    "event_queue_run maxRetries maxResponseLength tbl \<Longrightarrow>
     event_queue_run maxRetries maxResponseLength
       (snd (insertRaw maxResponseLength now tbl sid csid data))"
| run_claim:
    "event_queue_run maxRetries maxResponseLength tbl \<Longrightarrow>
     event_queue_run maxRetries maxResponseLength (snd (claimBatchForSummarization limit tbl))"
| run_markCompleted:
    "event_queue_run maxRetries maxResponseLength tbl \<Longrightarrow> r \<in> set tbl \<Longrightarrow>
     status r \<noteq> Failed \<Longrightarrow>
     event_queue_run maxRetries maxResponseLength (markCompleted now tbl (id_col r) observationId)"
| run_markFailed:
    "event_queue_run maxRetries maxResponseLength tbl \<Longrightarrow> r \<in> set tbl \<Longrightarrow>
     status r \<noteq> Failed \<Longrightarrow>
     event_queue_run maxRetries maxResponseLength (markFailed maxRetries tbl (id_col r) errorMessage)"
| run_release:
    "event_queue_run maxRetries maxResponseLength tbl \<Longrightarrow>
     event_queue_run maxRetries maxResponseLength (fst (releaseStuckEvents now olderThanMs tbl))"
| run_deleteCompleted:
    "event_queue_run maxRetries maxResponseLength tbl \<Longrightarrow>
     event_queue_run maxRetries maxResponseLength (fst (deleteCompleted olderThanEpoch tbl))"

inductive summary_queue_run :: "nat \<Rightarrow> RawSummaryRequest list \<Rightarrow> bool"
  for maxRetries :: nat where
  srun_empty: "summary_queue_run maxRetries []"
| srun_insertRaw:
    "summary_queue_run maxRetries tbl \<Longrightarrow>
     summary_queue_run maxRetries (snd (insertRaw_summary now tbl sid csid data))"
| srun_claim:
    "summary_queue_run maxRetries tbl \<Longrightarrow>
     summary_queue_run maxRetries (snd (claimBatchForSummarization limit tbl))"
| srun_markCompleted:
    "summary_queue_run maxRetries tbl \<Longrightarrow> r \<in> set tbl \<Longrightarrow> status r \<noteq> Failed \<Longrightarrow>
     summary_queue_run maxRetries (markCompleted_summary now tbl (id_col r) summaryId')"
| srun_markFailed:
    "summary_queue_run maxRetries tbl \<Longrightarrow> r \<in> set tbl \<Longrightarrow> status r \<noteq> Failed \<Longrightarrow>
     summary_queue_run maxRetries (markFailed maxRetries tbl (id_col r) errorMessage)"
| srun_release:
    "summary_queue_run maxRetries tbl \<Longrightarrow>
     summary_queue_run maxRetries (fst (releaseStuckRequests tbl))"

text \<open>The text \<open>insertRaw\<close> measures: the string itself, or the JSON text of any other
  value.\<close>

definition responseStr_of :: "js_any \<Rightarrow> string" where
  "responseStr_of v = (case v of JsString s j \<Rightarrow> s | JsOther t j \<Rightarrow> j)"

text \<open>The row a completion leaves, and the events an accumulator of
  \<open>groupBySession\<close> holds.\<close>

definition completed_with :: "int \<Rightarrow> nat \<Rightarrow> RawToolEvent \<Rightarrow> RawToolEvent" where
  "completed_with now obs r =
     r\<lparr>status := Completed, observation_id := Some obs, summarized_at_epoch := Some now\<rparr>"

definition grouped :: "(nat \<times> RawToolEvent list) list \<Rightarrow> RawToolEvent set" where
  "grouped acc = (\<Union>g\<in>set acc. set (snd g))"

text \<open>The rows of the given keys are in the table and have not failed, or are
  \<open>Summarizing\<close>: what a worker knows of the batch it has claimed.\<close>

definition open_ids :: "nat list \<Rightarrow> 'a queue_row_scheme list \<Rightarrow> bool" where
  "open_ids ids tbl \<longleftrightarrow> (\<forall>i\<in>set ids. \<exists>r\<in>set tbl. id_col r = i \<and> status r \<noteq> Failed)"

definition claimed_ids :: "nat list \<Rightarrow> 'a queue_row_scheme list \<Rightarrow> bool" where
  "claimed_ids ids tbl \<longleftrightarrow> (\<forall>i\<in>set ids. \<exists>r\<in>set tbl. id_col r = i \<and> status r = Summarizing)"

text \<open>
  A row is active while it is \<open>Pending\<close> or \<open>Summarizing\<close>.  A table has at most one
  active row per session when the sessions of its active rows are pairwise distinct.
  A guarded run of the summary queue is a run in which \<open>insertRaw\<close> is called only when
  \<open>hasPendingForSession\<close> is false for the session, and \<open>markFailed\<close> only on an active
  row.
\<close>

definition active :: "'a queue_row_scheme \<Rightarrow> bool" where
  "active r \<longleftrightarrow> status r \<in> {Pending, Summarizing}"

definition one_active_per_session :: "('a queue_row_scheme) list \<Rightarrow> bool" where
  "one_active_per_session tbl \<longleftrightarrow> distinct (map session_db_id (filter active tbl))"

inductive guarded_summary_run :: "nat \<Rightarrow> RawSummaryRequest list \<Rightarrow> bool"
  for maxRetries :: nat where
  grun_empty: "guarded_summary_run maxRetries []"
| grun_insertRaw:
    "guarded_summary_run maxRetries tbl \<Longrightarrow> \<not> hasPendingForSession tbl sid \<Longrightarrow>
     guarded_summary_run maxRetries (snd (insertRaw_summary now tbl sid csid data))"
| grun_claim:
    "guarded_summary_run maxRetries tbl \<Longrightarrow>
     guarded_summary_run maxRetries (snd (claimBatchForSummarization limit tbl))"
| grun_markCompleted:
    "guarded_summary_run maxRetries tbl \<Longrightarrow>
     guarded_summary_run maxRetries (markCompleted_summary now tbl i summaryId')"
| grun_markFailed:
    "guarded_summary_run maxRetries tbl \<Longrightarrow> r \<in> set tbl \<Longrightarrow>
     status r \<in> {Pending, Summarizing} \<Longrightarrow>
     guarded_summary_run maxRetries (markFailed maxRetries tbl (id_col r) errorMessage)"
| grun_release:
    "guarded_summary_run maxRetries tbl \<Longrightarrow>
     guarded_summary_run maxRetries (fst (releaseStuckRequests tbl))"

text \<open>The invariant of a guarded run: keys are distinct and no session has two active
  rows.\<close>

definition guarded_inv :: "RawSummaryRequest list \<Rightarrow> bool" where
  "guarded_inv tbl \<longleftrightarrow> distinct (map id_col tbl) \<and> one_active_per_session tbl"

section \<open>Sample data\<close>

text \<open>Concrete rows, a concrete environment and concrete workers, on which the
  theorems below are instantiated.\<close>

definition sample_event :: "nat \<Rightarrow> nat \<Rightarrow> status \<Rightarrow> nat \<Rightarrow> int \<Rightarrow> RawToolEvent" where
  "sample_event i sid st n t =
     \<lparr> id_col = i, session_db_id = sid, content_session_id = ''c'', status = st,
       retry_count = n, created_at_epoch = t, summarized_at_epoch = None,
       error_message = None, tool_name = ''Read'', tool_input = None, tool_response = None,
       cwd = None, prompt_number = None, project = None, observation_id = None \<rparr>"

definition sample_env :: "(nat, nat) collaborators" where
  "sample_env =
     \<lparr> getSessionById = (\<lambda>sid. Some \<lparr> sess_memory_session_id = Some ''m'', sess_project = ''p'' \<rparr>),
       storeObservations = (\<lambda>m p obs sm pn tok. Inr \<lparr> observationIds = obs, summaryId = Some 5 \<rparr>),
       parseObservations = (\<lambda>xml c. [11, 12]),
       parseSummary = (\<lambda>xml sid. Some 0),
       buildBatchPrompt = (\<lambda>events p. ''prompt''),
       buildSummaryPrompt = (\<lambda>request. ''prompt''),
       callLLM = (\<lambda>prompt. Inr \<lparr> content = ''<observation/>'', totalTokens = 1 \<rparr>) \<rparr>"

definition sample_queue :: "RawToolEvent list" where
  "sample_queue =
     [sample_event 1 7 Pending 0 30, sample_event 2 8 Pending 1 10,
      sample_event 3 7 Summarizing 0 5, sample_event 4 7 Pending 0 20]"

definition sample_input :: RawToolEventInput where
  "sample_input =
     \<lparr> in_tool_name = ''Read'', in_tool_input = None, in_tool_response = None,
       in_cwd = None, in_prompt_number = None, in_project = None \<rparr>"

definition sample_failed :: RawToolEvent where
  "sample_failed = (sample_event 1 7 Failed 3 0)\<lparr>error_message := Some ''boom''\<rparr>"

definition sample_request :: "status \<Rightarrow> nat \<Rightarrow> string option \<Rightarrow> RawSummaryRequest" where
  "sample_request st n err =
     \<lparr> id_col = 1, session_db_id = 42, content_session_id = ''c'', status = st,
       retry_count = n, created_at_epoch = 0, summarized_at_epoch = None,
       error_message = err, memory_session_id = None, request_project = ''p'',
       user_prompt = ''u'', last_assistant_message = None, summary_id = None \<rparr>"

definition sample_request_input :: RawSummaryRequestInput where
  "sample_request_input =
     \<lparr> in_memory_session_id = None, in_request_project = ''p'', in_user_prompt = ''u'',
       in_last_assistant_message = None \<rparr>"

definition empty_response_input :: RawToolEventInput where
  "empty_response_input = sample_input\<lparr>in_tool_response := Some (JsString [] [CHR 0x22, CHR 0x22])\<rparr>"

definition oversize_input :: RawToolEventInput where
  "oversize_input =
     sample_input\<lparr>in_tool_response := Some (JsString (replicate 100000 CHR ''x'') (CHR 0x22 # replicate 100000 CHR ''x'' @ [CHR 0x22]))\<rparr>"

definition sample_claimed :: "RawToolEvent list" where
  "sample_claimed =
     [sample_event 1 7 Summarizing 0 10, sample_event 2 7 Summarizing 0 20,
      sample_event 3 7 Summarizing 0 30]"

definition sample_env_silent :: "(nat, nat) collaborators" where
  "sample_env_silent = sample_env\<lparr>parseObservations := (\<lambda>xml c. [])\<rparr>"

definition sample_worker_29 :: RawEventSummarizer where
  "sample_worker_29 = (new_RawEventSummarizer None)\<lparr>running := True, batchCounter := 29\<rparr>"

definition sample_summary_worker_29 :: summarizer where
  "sample_summary_worker_29 = (new_RawSummarySummarizer None)\<lparr>running := True, batchCounter := 29\<rparr>"

definition stubborn_child :: SpawnedProcess where
  "stubborn_child =
     \<lparr> killed = False, exitCode = None, os_alive = True, exit_in = None,
       on_sigterm = None, on_sigkill = 1, exit_status = None \<rparr>"

definition sample_tracker :: "nat \<rightharpoonup> TrackedProcess" where
  "sample_tracker =
     [7 \<mapsto> \<lparr> process = stubborn_child, pid = 4242, sessionDbId = 7, spawnedAt = 0,
               command = ''claude'' \<rparr>]"

section \<open>Stall release on the tool-event queue\<close>

lemma sql_update_length: "length (fst (sql_update c a tbl)) = length tbl"
  by (simp add: sql_update_def)

lemma sql_update_nth:
  "k < length tbl \<Longrightarrow> fst (sql_update c a tbl) ! k = (if c (tbl ! k) then a (tbl ! k) else tbl ! k)"
  by (simp add: sql_update_def)

lemma sql_update_changes: "snd (sql_update c a tbl) = length (filter c tbl)"
  by (simp add: sql_update_def)

text \<open>
  C4.  For every threshold, every clock value and every table, \<open>releaseStuckEvents\<close>
  keeps the rows and their order, turns the status of exactly the rows that are
  \<open>Summarizing\<close> with \<open>created_at_epoch < now - threshold\<close> into \<open>Pending\<close>, changes no
  other field of any row (so \<open>retry_count\<close> stays), and reports the number of rows it
  changed.
\<close>

theorem releaseStuckEvents_exact:
  "length (fst (releaseStuckEvents now threshold tbl)) = length tbl \<and>
   (\<forall>k<length tbl.
      fst (releaseStuckEvents now threshold tbl) ! k =
        (if status (tbl ! k) = Summarizing \<and> created_at_epoch (tbl ! k) < now - threshold
         then (tbl ! k)\<lparr>status := Pending\<rparr> else tbl ! k) \<and>
      retry_count (fst (releaseStuckEvents now threshold tbl) ! k) = retry_count (tbl ! k)) \<and>
   snd (releaseStuckEvents now threshold tbl) =
     length (filter (\<lambda>r. status r = Summarizing \<and> created_at_epoch r < now - threshold) tbl)"
  by (simp add: releaseStuckEvents_def Let_def sql_update_length sql_update_nth sql_update_changes)

theorem releaseStuckEvents_exact_witness:
  "length (fst (releaseStuckEvents 1000000 300000
      [sample_event 1 7 Summarizing 2 0, sample_event 2 7 Summarizing 1 900000])) = 2 \<and>
   fst (releaseStuckEvents 1000000 300000
      [sample_event 1 7 Summarizing 2 0, sample_event 2 7 Summarizing 1 900000]) ! 0
     = sample_event 1 7 Pending 2 0 \<and>
   fst (releaseStuckEvents 1000000 300000
      [sample_event 1 7 Summarizing 2 0, sample_event 2 7 Summarizing 1 900000]) ! 1
     = sample_event 2 7 Summarizing 1 900000"
  using releaseStuckEvents_exact [of 1000000 300000
      "[sample_event 1 7 Summarizing 2 0, sample_event 2 7 Summarizing 1 900000]"]
  by (simp add: sample_event_def)

section \<open>Startup of the event worker\<close>

text \<open>
  C5.  The property: when the event worker starts, every row in status \<open>Summarizing\<close> is
  released to \<open>Pending\<close>, whatever its age, before the polling loop begins.  The code
  does not have it.  \<open>start()\<close> calls \<^verbatim>\<open>releaseStuckEvents()\<close> without an argument, so the
  store's default threshold of 300000 ms applies: a row that was created and claimed one
  second before the worker starts is still \<open>Summarizing\<close> after \<open>start()\<close>, and still
  \<open>Summarizing\<close> after the first tick of the loop, since \<open>processBatch\<close> of this worker
  releases nothing.  The comment in \<open>start()\<close>, \<^verbatim>\<open>Release any stuck events from previous runs\<close>,
  and \<open>start()\<close> of the summary worker, which releases every \<open>Summarizing\<close> row, say what
  the call is for.
\<close>

theorem start_events_keeps_recent_rows:
  "snd (start_events 1000000 (new_RawEventSummarizer None) [sample_event 1 7 Summarizing 0 999000])
     = [sample_event 1 7 Summarizing 0 999000] \<and>
   snd (processBatch_events sample_env 3 1000000
          (fst (start_events 1000000 (new_RawEventSummarizer None)
                  [sample_event 1 7 Summarizing 0 999000]))
          (snd (start_events 1000000 (new_RawEventSummarizer None)
                  [sample_event 1 7 Summarizing 0 999000])))
     = [sample_event 1 7 Summarizing 0 999000]"
  by (simp add: start_events_def new_RawEventSummarizer_def releaseStuckEvents_def
        releaseStuckEvents_default_def sql_update_def sample_event_def Let_def
        processBatch_events_def cleanupEveryNBatches_def claimBatchForSummarization_def
        sql_select_def or_default_def)

text \<open>The summary worker, started on a row of the same age, releases it.\<close>

lemma start_summary_releases_recent_rows:
  "snd (start_summary (new_RawSummarySummarizer None)
          [(sample_request Summarizing 0 None)\<lparr>created_at_epoch := 999000\<rparr>])
     = [(sample_request Pending 0 None)\<lparr>created_at_epoch := 999000\<rparr>]"
  by (simp add: start_summary_def new_RawSummarySummarizer_def releaseStuckRequests_def
        sql_update_def sample_request_def Let_def)

text \<open>
  What \<open>start()\<close> of the event worker does, for every worker, clock value and table: on a
  worker that is already running it changes nothing; on a worker that is not running it
  marks the worker running and releases exactly the rows that are \<open>Summarizing\<close> and were
  created more than 300000 ms before the start.
\<close>

lemma start_events_release:
  "(running w \<longrightarrow> start_events now w tbl = (w, tbl)) \<and>
   (\<not> running w \<longrightarrow>
      running (fst (start_events now w tbl)) \<and>
      length (snd (start_events now w tbl)) = length tbl \<and>
      (\<forall>k<length tbl.
         snd (start_events now w tbl) ! k =
           (if status (tbl ! k) = Summarizing \<and> created_at_epoch (tbl ! k) < now - 300000
            then (tbl ! k)\<lparr>status := Pending\<rparr> else tbl ! k)))"
  by (simp add: start_events_def Let_def releaseStuckEvents_def releaseStuckEvents_default_def
        sql_update_length sql_update_nth)

lemma start_events_release_example:
  "running (fst (start_events 1000000 (new_RawEventSummarizer None)
      [sample_event 1 7 Summarizing 2 0, sample_event 2 7 Summarizing 1 900000])) \<and>
   snd (start_events 1000000 (new_RawEventSummarizer None)
      [sample_event 1 7 Summarizing 2 0, sample_event 2 7 Summarizing 1 900000]) ! 0
     = sample_event 1 7 Pending 2 0 \<and>
   snd (start_events 1000000 (new_RawEventSummarizer None)
      [sample_event 1 7 Summarizing 2 0, sample_event 2 7 Summarizing 1 900000]) ! 1
     = sample_event 2 7 Summarizing 1 900000"
  using start_events_release [of "new_RawEventSummarizer None" 1000000
      "[sample_event 1 7 Summarizing 2 0, sample_event 2 7 Summarizing 1 900000]"]
  by (simp add: sample_event_def new_RawEventSummarizer_def)

section \<open>Claiming a batch\<close>

lemma claim_fst:
  "fst (claimBatchForSummarization limit tbl) =
     take limit (sort_key created_at_epoch (filter (\<lambda>r. status r = Pending) tbl))"
  by (simp add: claimBatchForSummarization_def sql_select_def Let_def)

lemma claim_snd:
  "snd (claimBatchForSummarization limit tbl) =
     map (\<lambda>r. if id_col r \<in> id_col ` set (fst (claimBatchForSummarization limit tbl))
               then r\<lparr>status := Summarizing\<rparr> else r) tbl"
  by (simp add: claimBatchForSummarization_def sql_select_def sql_update_def Let_def)

lemma claim_batch_subset:
  "r \<in> set (fst (claimBatchForSummarization limit tbl)) \<Longrightarrow> r \<in> set tbl \<and> status r = Pending"
  by (auto simp: claim_fst dest: in_set_takeD)

lemma claim_batch_sorted:
  "sorted (map created_at_epoch (fst (claimBatchForSummarization limit tbl)))"
proof -
  have "sorted (take limit (map created_at_epoch
          (sort_key created_at_epoch (filter (\<lambda>r. status r = Pending) tbl))))"
    by (rule sorted_wrt_take) simp
  then show ?thesis by (simp add: claim_fst take_map)
qed

lemma claim_batch_length:
  "length (fst (claimBatchForSummarization limit tbl)) =
     min limit (length (filter (\<lambda>r. status r = Pending) tbl))"
  by (simp add: claim_fst min.commute)

lemma claim_batch_oldest:
  assumes "r \<in> set tbl" "status r = Pending"
    and "r \<notin> set (fst (claimBatchForSummarization limit tbl))"
    and "b \<in> set (fst (claimBatchForSummarization limit tbl))"
  shows "created_at_epoch b \<le> created_at_epoch r"
proof -
  let ?s = "sort_key created_at_epoch (filter (\<lambda>r. status r = Pending) tbl)"
  have "r \<in> set ?s" using assms(1,2) by simp
  then have "r \<in> set (take limit ?s) \<union> set (drop limit ?s)"
    by (metis append_take_drop_id set_append)
  with assms(3) have r: "r \<in> set (drop limit ?s)" by (simp add: claim_fst)
  have b: "b \<in> set (take limit ?s)" using assms(4) by (simp add: claim_fst)
  have "sorted (map created_at_epoch (take limit ?s @ drop limit ?s))" by simp
  then show ?thesis using r b
    unfolding map_append sorted_append by auto
qed

lemma claim_ids_iff:
  assumes "distinct (map id_col tbl)" "r \<in> set tbl"
  shows "id_col r \<in> id_col ` set (fst (claimBatchForSummarization limit tbl)) \<longleftrightarrow>
         r \<in> set (fst (claimBatchForSummarization limit tbl))"
proof
  assume "id_col r \<in> id_col ` set (fst (claimBatchForSummarization limit tbl))"
  then obtain b where b: "b \<in> set (fst (claimBatchForSummarization limit tbl))" "id_col b = id_col r"
    by auto
  then have "b \<in> set tbl" by (simp add: claim_batch_subset)
  with assms b(2) have "b = r" by (meson distinct_map inj_onD)
  with b show "r \<in> set (fst (claimBatchForSummarization limit tbl))" by simp
qed auto

lemma claim_pending_after:
  "r \<in> set (snd (claimBatchForSummarization limit tbl)) \<Longrightarrow> status r = Pending \<Longrightarrow>
     id_col r \<notin> id_col ` set (fst (claimBatchForSummarization limit tbl))"
  by (subst (asm) claim_snd) (auto split: if_splits)

lemma claim_twice_disjoint:
  "id_col ` set (fst (claimBatchForSummarization limit tbl)) \<inter>
   id_col ` set (fst (claimBatchForSummarization limit' (snd (claimBatchForSummarization limit tbl)))) = {}"
proof -
  let ?tbl' = "snd (claimBatchForSummarization limit tbl)"
  have "id_col b \<notin> id_col ` set (fst (claimBatchForSummarization limit tbl))"
    if "b \<in> set (fst (claimBatchForSummarization limit' ?tbl'))" for b
  proof -
    from that have "b \<in> set ?tbl' \<and> status b = Pending" by (rule claim_batch_subset)
    then show ?thesis by (simp add: claim_pending_after)
  qed
  then show ?thesis unfolding disjoint_iff by (metis imageE)
qed

text \<open>
  C1.  On a table whose keys are distinct, one call of \<open>claimBatchForSummarization\<close>
  (the select and the update are one transaction, hence one transition of the table)
  returns \<open>min limit n\<close> rows, where \<open>n\<close> is the number of \<open>Pending\<close> rows: rows of
  the table that were \<open>Pending\<close>, in ascending order of \<open>created_at_epoch\<close>, and no
  \<open>Pending\<close> row left out is older than a returned one.  The table keeps its rows;
  exactly the returned rows become \<open>Summarizing\<close> and nothing else changes.  With no
  \<open>Pending\<close> row the batch is empty and the table is unchanged.  A second claim, with
  any limit, on the table the first one leaves (which is how the transactions of two
  concurrent callers are serialised) returns no id that the first one returned.
\<close>

theorem claimBatchForSummarization_contract:
  assumes "distinct (map id_col tbl)"
  shows
    "(let batch = fst (claimBatchForSummarization limit tbl);
          tbl' = snd (claimBatchForSummarization limit tbl)
      in length batch = min limit (length (filter (\<lambda>r. status r = Pending) tbl)) \<and>
         (\<forall>b\<in>set batch. b \<in> set tbl \<and> status b = Pending) \<and>
         sorted (map created_at_epoch batch) \<and>
         (\<forall>r\<in>set tbl. status r = Pending \<and> r \<notin> set batch \<longrightarrow>
            (\<forall>b\<in>set batch. created_at_epoch b \<le> created_at_epoch r)) \<and>
         length tbl' = length tbl \<and>
         (\<forall>k<length tbl.
            tbl' ! k = (if tbl ! k \<in> set batch then (tbl ! k)\<lparr>status := Summarizing\<rparr> else tbl ! k)) \<and>
         ((\<forall>r\<in>set tbl. status r \<noteq> Pending) \<longrightarrow> batch = [] \<and> tbl' = tbl) \<and>
         id_col ` set batch \<inter> id_col ` set (fst (claimBatchForSummarization limit' tbl')) = {})"
proof -
  let ?batch = "fst (claimBatchForSummarization limit tbl)"
  let ?tbl' = "snd (claimBatchForSummarization limit tbl)"
  have len: "length ?tbl' = length tbl"
    by (subst claim_snd) simp
  have flip: "?tbl' ! k = (if tbl ! k \<in> set ?batch then (tbl ! k)\<lparr>status := Summarizing\<rparr> else tbl ! k)"
    if "k < length tbl" for k
  proof -
    from that have "tbl ! k \<in> set tbl" by simp
    with assms have "id_col (tbl ! k) \<in> id_col ` set ?batch \<longleftrightarrow> tbl ! k \<in> set ?batch"
      by (rule claim_ids_iff)
    with that show ?thesis by (subst claim_snd) simp
  qed
  have none: "?batch = [] \<and> ?tbl' = tbl" if "\<forall>r\<in>set tbl. status r \<noteq> Pending"
  proof -
    from that have "filter (\<lambda>r. status r = Pending) tbl = []" by (simp add: filter_empty_conv)
    then have "?batch = []" by (simp add: claim_fst)
    then show ?thesis by (subst claim_snd) (simp add: map_idI)
  qed
  show ?thesis
    unfolding Let_def
  proof (intro conjI)
    show "length ?batch = min limit (length (filter (\<lambda>r. status r = Pending) tbl))"
      by (rule claim_batch_length)
    show "\<forall>b\<in>set ?batch. b \<in> set tbl \<and> status b = Pending"
      by (simp add: claim_batch_subset)
    show "sorted (map created_at_epoch ?batch)"
      by (rule claim_batch_sorted)
    show "\<forall>r\<in>set tbl. status r = Pending \<and> r \<notin> set ?batch \<longrightarrow>
            (\<forall>b\<in>set ?batch. created_at_epoch b \<le> created_at_epoch r)"
      using claim_batch_oldest [of _ tbl limit] by (intro ballI impI) simp
    show "length ?tbl' = length tbl" by (rule len)
    show "\<forall>k<length tbl.
            ?tbl' ! k = (if tbl ! k \<in> set ?batch then (tbl ! k)\<lparr>status := Summarizing\<rparr> else tbl ! k)"
      using flip by simp
    show "(\<forall>r\<in>set tbl. status r \<noteq> Pending) \<longrightarrow> ?batch = [] \<and> ?tbl' = tbl"
      using none by simp
    show "id_col ` set ?batch \<inter> id_col ` set (fst (claimBatchForSummarization limit' ?tbl')) = {}"
      by (rule claim_twice_disjoint)
  qed
qed



lemma claim_sample_queue:
  "claimBatchForSummarization 2 sample_queue =
     ([sample_event 2 8 Pending 1 10, sample_event 4 7 Pending 0 20],
      [sample_event 1 7 Pending 0 30, sample_event 2 8 Summarizing 1 10,
       sample_event 3 7 Summarizing 0 5, sample_event 4 7 Summarizing 0 20])"
  by (simp add: claimBatchForSummarization_def sql_select_def sql_update_def sample_queue_def
        sample_event_def Let_def)

theorem claimBatchForSummarization_contract_witness:
  "distinct (map id_col sample_queue) \<and>
   length (fst (claimBatchForSummarization 2 sample_queue)) = 2 \<and>
   sorted (map created_at_epoch (fst (claimBatchForSummarization 2 sample_queue))) \<and>
   length (snd (claimBatchForSummarization 2 sample_queue)) = 4 \<and>
   snd (claimBatchForSummarization 2 sample_queue) ! 2 = sample_event 3 7 Summarizing 0 5 \<and>
   id_col ` set (fst (claimBatchForSummarization 2 sample_queue)) \<inter>
   id_col ` set (fst (claimBatchForSummarization 5 (snd (claimBatchForSummarization 2 sample_queue)))) = {}"
proof -
  have d: "distinct (map id_col sample_queue)"
    by (simp add: sample_queue_def sample_event_def)
  have p: "filter (\<lambda>r. status r = Pending) sample_queue =
      [sample_event 1 7 Pending 0 30, sample_event 2 8 Pending 1 10, sample_event 4 7 Pending 0 20]"
    by (simp add: sample_queue_def sample_event_def)
  have n: "sample_queue ! 2 = sample_event 3 7 Summarizing 0 5" "length sample_queue = 4"
    by (simp_all add: sample_queue_def)
  have s: "sample_event 3 7 Summarizing 0 5 \<notin> set (fst (claimBatchForSummarization 2 sample_queue))"
    using claimBatchForSummarization_contract [OF d, of 2 5]
    by (auto simp: Let_def sample_event_def)
  show ?thesis
    using d claimBatchForSummarization_contract [OF d, of 2 5] s
    by (simp add: Let_def p n)
qed

section \<open>Invariants of the runs\<close>

lemma sql_update_ids:
  "(\<And>r. id_col (a r) = id_col r) \<Longrightarrow> map id_col (fst (sql_update c a tbl)) = map id_col tbl"
  by (simp add: sql_update_def)

lemma filter_key_distinct:
  "distinct (map f xs) \<Longrightarrow> r \<in> set xs \<Longrightarrow> filter (\<lambda>x. f x = f r) xs = [r]"
proof (induction xs)
  case Nil
  then show ?case by simp
next
  case (Cons x xs)
  show ?case
  proof (cases "x = r")
    case True
    with Cons.prems have "\<forall>y\<in>set xs. f y \<noteq> f r" by (auto simp: image_iff)
    then have "filter (\<lambda>x. f x = f r) xs = []" by (simp add: filter_empty_conv)
    with True show ?thesis by simp
  next
    case False
    with Cons.prems have r: "r \<in> set xs" and d: "distinct (map f xs)" by auto
    with Cons.prems have "f x \<noteq> f r" by (auto simp: image_iff)
    with Cons.IH [OF d r] show ?thesis by simp
  qed
qed

lemma sql_get_by_id:
  "distinct (map id_col tbl) \<Longrightarrow> r \<in> set tbl \<Longrightarrow> sql_get (\<lambda>x. id_col x = id_col r) tbl = Some r"
  by (simp add: sql_get_def filter_key_distinct)

lemma markFailed_eq:
  assumes "distinct (map id_col tbl)" "r \<in> set tbl"
  shows "markFailed m tbl (id_col r) msg =
     map (\<lambda>x. if id_col x = id_col r
               then x\<lparr>status := (if m \<le> retry_count r + 1 then Failed else Pending),
                      retry_count := retry_count r + 1, error_message := Some msg\<rparr>
               else x) tbl"
  using sql_get_by_id [OF assms]
  by (simp add: markFailed_def Let_def sql_update_def)

lemma markFailed_ids: "map id_col (markFailed m tbl i msg) = map id_col tbl"
  by (simp add: markFailed_def Let_def sql_update_ids)

lemma retry_budget_inv_markFailed:
  assumes "retry_budget_inv m tbl" "r \<in> set tbl" "status r \<noteq> Failed"
  shows "retry_budget_inv m (markFailed m tbl (id_col r) msg)"
proof -
  from assms(1) have d: "distinct (map id_col tbl)" by (simp add: retry_budget_inv_def)
  from assms have lt: "retry_count r < m" by (auto simp: retry_budget_inv_def list_all_iff)
  have same: "x = r" if "x \<in> set tbl" "id_col x = id_col r" for x
    using d that assms(2) by (meson distinct_map inj_onD)
  show ?thesis
    unfolding retry_budget_inv_def
  proof
    show "distinct (map id_col (markFailed m tbl (id_col r) msg))"
      using d by (simp add: markFailed_ids)
    show "list_all (\<lambda>r. if status r = Failed then retry_count r = m else retry_count r < m)
            (markFailed m tbl (id_col r) msg)"
      using assms(1) lt
      by (auto simp: markFailed_eq [OF d assms(2)] retry_budget_inv_def list_all_iff)
  qed
qed


lemma foldr_max_ge: "x \<in> set xs \<Longrightarrow> x \<le> foldr max xs (0::nat)"
  by (induction xs) (auto simp: max_def)

lemma next_rowid_fresh: "next_rowid tbl \<notin> id_col ` set tbl"
proof
  assume "next_rowid tbl \<in> id_col ` set tbl"
  then have "next_rowid tbl \<in> set (map id_col tbl)" by simp
  then have "next_rowid tbl \<le> foldr max (map id_col tbl) 0" by (rule foldr_max_ge)
  then show False by (simp add: next_rowid_def)
qed

lemma retry_budget_inv_append:
  assumes "retry_budget_inv m tbl" "id_col r \<notin> id_col ` set tbl"
    and "status r = Pending" "retry_count r = 0" "0 < m"
  shows "retry_budget_inv m (tbl @ [r])"
  using assms by (auto simp: retry_budget_inv_def)

lemma retry_budget_inv_update:
  assumes "retry_budget_inv m tbl"
    and "\<And>r. id_col (a r) = id_col r"
    and "\<And>r. r \<in> set tbl \<Longrightarrow> c r \<Longrightarrow> status r \<noteq> Failed \<and> status (a r) \<noteq> Failed \<and> retry_count (a r) = retry_count r"
  shows "retry_budget_inv m (fst (sql_update c a tbl))"
  unfolding retry_budget_inv_def
proof
  show "distinct (map id_col (fst (sql_update c a tbl)))"
    using assms(1,2) by (simp add: sql_update_ids retry_budget_inv_def)
  show "list_all (\<lambda>r. if status r = Failed then retry_count r = m else retry_count r < m)
          (fst (sql_update c a tbl))"
    using assms(1,3) by (auto simp: sql_update_def retry_budget_inv_def list_all_iff)
qed

lemma retry_budget_inv_claim:
  "retry_budget_inv m tbl \<Longrightarrow> retry_budget_inv m (snd (claimBatchForSummarization limit tbl))"
proof -
  assume inv: "retry_budget_inv m tbl"
  let ?b = "fst (claimBatchForSummarization limit tbl)"
  have eq: "snd (claimBatchForSummarization limit tbl) =
      fst (sql_update (\<lambda>r. status r = Pending \<and> id_col r \<in> id_col ` set ?b)
             (\<lambda>r. r\<lparr>status := Summarizing\<rparr>) tbl)"
  proof -
    from inv have d: "distinct (map id_col tbl)" by (simp add: retry_budget_inv_def)
    have "id_col r \<in> id_col ` set ?b \<Longrightarrow> status r = Pending" if "r \<in> set tbl" for r
      using claim_ids_iff [OF d that, of limit] claim_batch_subset [of r limit tbl] by simp
    then show ?thesis
      by (subst claim_snd) (auto simp: sql_update_def)
  qed
  show ?thesis unfolding eq by (rule retry_budget_inv_update [OF inv]) auto
qed

lemma retry_budget_inv_delete:
  "retry_budget_inv m tbl \<Longrightarrow> retry_budget_inv m (fst (sql_delete c tbl))"
  by (auto simp: retry_budget_inv_def sql_delete_def list_all_iff distinct_map_filter)

lemma markCompleted_same_row:
  assumes "distinct (map id_col tbl)" "r \<in> set tbl" "x \<in> set tbl" "id_col x = id_col r"
  shows "x = r"
  using assms by (meson distinct_map inj_onD)

lemma event_queue_run_inv:
  assumes "0 < maxRetries" "event_queue_run maxRetries maxResponseLength tbl"
  shows "retry_budget_inv maxRetries tbl"
  using assms(2)
proof (induction rule: event_queue_run.induct)
  case run_empty
  show ?case by (simp add: retry_budget_inv_def)
next
  case (run_insertRaw tbl now sid csid data)
  show ?case
    unfolding insertRaw_def Let_def snd_conv
    by (rule retry_budget_inv_append [OF run_insertRaw.IH])
       (simp_all add: next_rowid_fresh default_retry_count_def assms(1))
next
  case (run_claim tbl limit)
  then show ?case by (simp add: retry_budget_inv_claim)
next
  case (run_markCompleted tbl r now observationId)
  from run_markCompleted.IH have d: "distinct (map id_col tbl)" by (simp add: retry_budget_inv_def)
  show ?case
    unfolding markCompleted_def
  proof (rule retry_budget_inv_update [OF run_markCompleted.IH])
    fix x assume "x \<in> set tbl" "id_col x = id_col r"
    with d run_markCompleted.hyps have "x = r" by (simp add: markCompleted_same_row)
    with run_markCompleted.hyps
    show "status x \<noteq> Failed \<and>
          status (x\<lparr>status := Completed, observation_id := Some observationId,
                    summarized_at_epoch := Some now\<rparr>) \<noteq> Failed \<and>
          retry_count (x\<lparr>status := Completed, observation_id := Some observationId,
                    summarized_at_epoch := Some now\<rparr>) = retry_count x"
      by simp
  qed simp
next
  case (run_markFailed tbl r errorMessage)
  then show ?case by (simp add: retry_budget_inv_markFailed)
next
  case (run_release tbl now olderThanMs)
  show ?case
    unfolding releaseStuckEvents_def Let_def
    by (rule retry_budget_inv_update [OF run_release.IH]) auto
next
  case (run_deleteCompleted tbl olderThanEpoch)
  then show ?case by (simp add: deleteCompleted_def retry_budget_inv_delete)
qed

lemma summary_queue_run_inv:
  assumes "0 < maxRetries" "summary_queue_run maxRetries tbl"
  shows "retry_budget_inv maxRetries tbl"
  using assms(2)
proof (induction rule: summary_queue_run.induct)
  case srun_empty
  show ?case by (simp add: retry_budget_inv_def)
next
  case (srun_insertRaw tbl now sid csid data)
  show ?case
    unfolding insertRaw_summary_def Let_def snd_conv
    by (rule retry_budget_inv_append [OF srun_insertRaw.IH])
       (simp_all add: next_rowid_fresh assms(1))
next
  case (srun_claim tbl limit)
  then show ?case by (simp add: retry_budget_inv_claim)
next
  case (srun_markCompleted tbl r now summaryId')
  from srun_markCompleted.IH have d: "distinct (map id_col tbl)" by (simp add: retry_budget_inv_def)
  show ?case
    unfolding markCompleted_summary_def
  proof (rule retry_budget_inv_update [OF srun_markCompleted.IH])
    fix x assume "x \<in> set tbl" "id_col x = id_col r"
    with d srun_markCompleted.hyps have "x = r" by (simp add: markCompleted_same_row)
    with srun_markCompleted.hyps
    show "status x \<noteq> Failed \<and>
          status (x\<lparr>status := Completed, summary_id := Some summaryId',
                    summarized_at_epoch := Some now\<rparr>) \<noteq> Failed \<and>
          retry_count (x\<lparr>status := Completed, summary_id := Some summaryId',
                    summarized_at_epoch := Some now\<rparr>) = retry_count x"
      by simp
  qed simp
next
  case (srun_markFailed tbl r errorMessage)
  then show ?case by (simp add: retry_budget_inv_markFailed)
next
  case (srun_release tbl)
  show ?case
    unfolding releaseStuckRequests_def
    by (rule retry_budget_inv_update [OF srun_release.IH]) auto
qed


lemma markFailed_length: "length (markFailed m tbl i msg) = length tbl"
  using arg_cong [OF markFailed_ids, of length m tbl i msg] by simp

section \<open>Inserting a tool event\<close>

text \<open>
  C3 (as stated: a \<open>tool_response\<close> of at most 50 000 characters is stored unchanged).
  The empty string has length 0, and the row stores \<^verbatim>\<open>NULL\<close> for it, not the empty
  string: the guard \<^verbatim>\<open>if (data.tool_response)\<close> is false for every falsy value.
\<close>

theorem insertRaw_empty_response_is_null:
  "length (responseStr_of (JsString [] [CHR 0x22, CHR 0x22])) \<le> 50000 \<and>
   tool_response (last (snd (insertRaw default_maxResponseLength 0 [] 7 ''c'' empty_response_input))) = None"
  by (simp add: insertRaw_def empty_response_input_def sample_input_def Let_def responseStr_of_def)

lemma insertRaw_snd:
  "snd (insertRaw m now tbl sid csid data) = tbl @ [last (snd (insertRaw m now tbl sid csid data))]"
  by (simp add: insertRaw_def Let_def)

lemma insertRaw_last_fields:
  "id_col (last (snd (insertRaw m now tbl sid csid data))) = fst (insertRaw m now tbl sid csid data)"
  "status (last (snd (insertRaw m now tbl sid csid data))) = Pending"
  "retry_count (last (snd (insertRaw m now tbl sid csid data))) = 0"
  "created_at_epoch (last (snd (insertRaw m now tbl sid csid data))) = now"
  "session_db_id (last (snd (insertRaw m now tbl sid csid data))) = sid"
  by (simp_all add: insertRaw_def Let_def default_retry_count_def)

lemma insertRaw_fresh: "fst (insertRaw m now tbl sid csid data) \<notin> id_col ` set tbl"
  by (simp add: insertRaw_def Let_def next_rowid_fresh)

lemma insertRaw_response:
  "tool_response (last (snd (insertRaw m now tbl sid csid data))) =
     (case in_tool_response data of
        None \<Rightarrow> None
      | Some v \<Rightarrow>
          if truthy v
          then Some (if m < length (responseStr_of v)
                     then take m (responseStr_of v) @ truncation_marker else responseStr_of v)
          else None)"
  by (cases "in_tool_response data")
     (auto simp: insertRaw_def Let_def responseStr_of_def split: js_any.splits)

text \<open>
  C3 (amended).  With the default cap of 50 000 characters, \<open>insertRaw\<close> appends exactly
  one row to the table and changes no other; the row has the key that is returned, a
  key no other row has, status \<open>Pending\<close> and \<open>retry_count = 0\<close>.  A truthy
  \<open>tool_response\<close> whose text is longer than the cap is stored as its first 50 000
  characters followed by the marker, so the stored length is 50 000 plus the length of
  the marker; a truthy one of at most 50 000 characters is stored unchanged; a falsy
  one (the empty string among them) and an absent one are stored as \<^verbatim>\<open>NULL\<close>.
\<close>

theorem insertRaw_row:
  "(let i = fst (insertRaw default_maxResponseLength now tbl sid csid data);
        tbl' = snd (insertRaw default_maxResponseLength now tbl sid csid data);
        row = last tbl'
    in tbl' = tbl @ [row] \<and> id_col row = i \<and> i \<notin> id_col ` set tbl \<and>
       status row = Pending \<and> retry_count row = 0 \<and>
       (\<forall>v. in_tool_response data = Some v \<and> truthy v \<and> 50000 < length (responseStr_of v) \<longrightarrow>
            tool_response row = Some (take 50000 (responseStr_of v) @ ''... [truncated]'') \<and>
            length (take 50000 (responseStr_of v) @ ''... [truncated]'') = 50000 + length ''... [truncated]'') \<and>
       (\<forall>v. in_tool_response data = Some v \<and> truthy v \<and> length (responseStr_of v) \<le> 50000 \<longrightarrow>
            tool_response row = Some (responseStr_of v)) \<and>
       (\<forall>v. in_tool_response data = Some v \<and> \<not> truthy v \<longrightarrow> tool_response row = None) \<and>
       (in_tool_response data = None \<longrightarrow> tool_response row = None))"
  unfolding Let_def
proof (intro conjI allI impI)
  show "snd (insertRaw default_maxResponseLength now tbl sid csid data) =
        tbl @ [last (snd (insertRaw default_maxResponseLength now tbl sid csid data))]"
    by (rule insertRaw_snd)
qed (simp_all add: insertRaw_last_fields insertRaw_fresh insertRaw_response
       default_maxResponseLength_def truncation_marker_def)

theorem insertRaw_row_witness:
  "truthy (JsString (replicate 100000 CHR ''x'') (CHR 0x22 # replicate 100000 CHR ''x'' @ [CHR 0x22])) \<and>
   50000 < length (responseStr_of (JsString (replicate 100000 CHR ''x'') (CHR 0x22 # replicate 100000 CHR ''x'' @ [CHR 0x22]))) \<and>
   tool_response (last (snd (insertRaw default_maxResponseLength 0 [] 7 ''c'' oversize_input))) =
     Some (replicate 50000 CHR ''x'' @ ''... [truncated]'') \<and>
   length (replicate 50000 CHR ''x'' @ ''... [truncated]'') = 50015 \<and>
   status (last (snd (insertRaw default_maxResponseLength 0 [] 7 ''c'' oversize_input))) = Pending \<and>
   retry_count (last (snd (insertRaw default_maxResponseLength 0 [] 7 ''c'' oversize_input))) = 0"
proof -
  have r: "in_tool_response oversize_input = Some (JsString (replicate 100000 CHR ''x'') (CHR 0x22 # replicate 100000 CHR ''x'' @ [CHR 0x22]))"
    by (simp add: oversize_input_def)
  have t: "truthy (JsString (replicate 100000 CHR ''x'') (CHR 0x22 # replicate 100000 CHR ''x'' @ [CHR 0x22]))" by simp
  have l: "50000 < length (responseStr_of (JsString (replicate 100000 CHR ''x'') (CHR 0x22 # replicate 100000 CHR ''x'' @ [CHR 0x22])))"
    by (simp add: responseStr_of_def)
  note w = insertRaw_row [of 0 "[]" 7 "''c''" oversize_input, unfolded Let_def]
  from w have "status (last (snd (insertRaw default_maxResponseLength 0 [] 7 ''c'' oversize_input))) = Pending"
    and "retry_count (last (snd (insertRaw default_maxResponseLength 0 [] 7 ''c'' oversize_input))) = 0"
    by simp_all
  moreover from w r t l
  have "tool_response (last (snd (insertRaw default_maxResponseLength 0 [] 7 ''c'' oversize_input))) =
     Some (take 50000 (responseStr_of (JsString (replicate 100000 CHR ''x'') (CHR 0x22 # replicate 100000 CHR ''x'' @ [CHR 0x22]))) @ ''... [truncated]'')"
    by blast
  ultimately show ?thesis using t l by (simp add: responseStr_of_def)
qed

section \<open>Completing the events of a sub-batch\<close>

lemma markCompleted_map:
  "markCompleted now tbl i obs = map (\<lambda>r. if id_col r = i then completed_with now obs r else r) tbl"
  by (simp add: markCompleted_def sql_update_def completed_with_def)

lemma id_col_completed_with: "id_col (completed_with now obs r) = id_col r"
  by (simp add: completed_with_def)

lemma fold_markCompleted:
  "distinct (map fst ps) \<Longrightarrow>
   fold (\<lambda>p t. markCompleted now t (fst p) (snd p)) ps tbl =
     map (\<lambda>r. case map_of ps (id_col r) of None \<Rightarrow> r | Some obs \<Rightarrow> completed_with now obs r) tbl"
proof (induction ps arbitrary: tbl)
  case Nil
  then show ?case by simp
next
  case (Cons p ps)
  obtain a b where p: "p = (a, b)" by (cases p)
  from Cons.prems p have d: "distinct (map fst ps)" and n: "map_of ps a = None"
    by (auto simp: map_of_eq_None_iff)
  have "fold (\<lambda>p t. markCompleted now t (fst p) (snd p)) (p # ps) tbl =
        fold (\<lambda>p t. markCompleted now t (fst p) (snd p)) ps (markCompleted now tbl a b)"
    by (simp add: p)
  also have "\<dots> = map (\<lambda>r. case map_of ps (id_col r) of None \<Rightarrow> r | Some obs \<Rightarrow> completed_with now obs r)
                    (markCompleted now tbl a b)"
    by (rule Cons.IH [OF d])
  also have "\<dots> = map (\<lambda>r. case map_of (p # ps) (id_col r) of None \<Rightarrow> r
                              | Some obs \<Rightarrow> completed_with now obs r) tbl"
    using n by (simp add: markCompleted_map p id_col_completed_with)
  finally show ?case .
qed

lemma map_nth_key: "map (\<lambda>j. f (xs ! j)) [0..<length xs] = map f xs"
  by (rule nth_equalityI) simp_all

lemma map_of_indexed:
  assumes "distinct (map f xs)" "i < length xs"
  shows "map_of (map (\<lambda>j. (f (xs ! j), g j)) [0..<length xs]) (f (xs ! i)) = Some (g i)"
proof -
  let ?ps = "map (\<lambda>j. (f (xs ! j), g j)) [0..<length xs]"
  have "map fst ?ps = map f xs"
    by (simp add: comp_def map_nth_key)
  with assms(1) have "distinct (map fst ?ps)" by simp
  moreover have "(f (xs ! i), g i) \<in> set ?ps" using assms(2) by auto
  ultimately show ?thesis by (rule map_of_is_SomeI)
qed

lemma map_of_indexed_None:
  "k \<notin> f ` set xs \<Longrightarrow> map_of (map (\<lambda>j. (f (xs ! j), g j)) [0..<length xs]) k = None"
  by (auto simp: map_of_eq_None_iff image_iff)

lemma fold_markCompleted_indexed:
  assumes "distinct (map id_col events)"
  shows "fold (\<lambda>i t. markCompleted now t (id_col (events ! i)) (g i)) [0..<length events] tbl =
     map (\<lambda>r. case map_of (map (\<lambda>j. (id_col (events ! j), g j)) [0..<length events]) (id_col r) of
                 None \<Rightarrow> r | Some obs \<Rightarrow> completed_with now obs r) tbl"
proof -
  let ?ps = "map (\<lambda>j. (id_col (events ! j), g j)) [0..<length events]"
  have "map fst ?ps = map id_col events" by (simp add: comp_def map_nth_key)
  with assms have d: "distinct (map fst ?ps)" by simp
  have "fold (\<lambda>i t. markCompleted now t (id_col (events ! i)) (g i)) [0..<length events] tbl =
        fold (\<lambda>p t. markCompleted now t (fst p) (snd p)) ?ps tbl"
    by (simp add: fold_map comp_def)
  then show ?thesis by (simp only: fold_markCompleted [OF d])
qed

lemma fold_markCompleted_const:
  "fold (\<lambda>event t. markCompleted now t (id_col event) obs) events tbl =
     map (\<lambda>r. if id_col r \<in> id_col ` set events then completed_with now obs r else r) tbl"
proof (induction events arbitrary: tbl)
  case Nil
  then show ?case by simp
next
  case (Cons e es)
  have "fold (\<lambda>event t. markCompleted now t (id_col event) obs) (e # es) tbl =
        fold (\<lambda>event t. markCompleted now t (id_col event) obs) es (markCompleted now tbl (id_col e) obs)"
    by simp
  also have "\<dots> = map (\<lambda>r. if id_col r \<in> id_col ` set es then completed_with now obs r else r)
                     (markCompleted now tbl (id_col e) obs)"
    by (rule Cons.IH)
  also have "\<dots> = map (\<lambda>r. if id_col r \<in> id_col ` set (e # es) then completed_with now obs r else r) tbl"
    by (auto simp: markCompleted_map id_col_completed_with completed_with_def)
  finally show ?case .
qed

lemma obsId_for_clamped:
  assumes "ids \<noteq> []"
  shows "obsId_for ids i = ids ! min i (length ids - 1)"
proof -
  from assms have pos: "0 < length ids" by simp
  then have a: "nat (min (int i) (int (length ids) - 1)) = min i (length ids - 1)" by auto
  from pos have b: "0 \<le> min (int i) (int (length ids) - 1)" by simp
  have c: "min (int i) (int (length ids) - 1) < int (length ids)" by (simp add: min_def)
  show ?thesis
    unfolding obsId_for_def js_index_def or_zero_def using a b c by simp
qed


lemma summarize_no_observations:
  assumes "getSessionById env sid = Some sessionRecord"
    and "sess_memory_session_id sessionRecord = Some m" "m \<noteq> []"
    and "callLLM env (buildBatchPrompt env events (sess_project sessionRecord)) = Inr response"
    and "events \<noteq> []"
    and "parseObservations env (content response) (content_session_id (hd events)) = []"
  shows "snd (summarizeSessionEvents env maxRetries now sid events w tbl) =
         fold (\<lambda>event t. markCompleted now t (id_col event) 0) events tbl"
  using assms
  by (cases events) (simp_all add: summarizeSessionEvents_def or_null_string_def Let_def)

lemma summarize_stored:
  assumes "getSessionById env sid = Some sessionRecord"
    and "sess_memory_session_id sessionRecord = Some m" "m \<noteq> []"
    and "callLLM env (buildBatchPrompt env events (sess_project sessionRecord)) = Inr response"
    and "events \<noteq> []"
    and "parseObservations env (content response) (content_session_id (hd events)) \<noteq> []"
    and "storeObservations env m (sess_project sessionRecord)
           (parseObservations env (content response) (content_session_id (hd events))) None
           (or_one (prompt_number (hd events))) (totalTokens response) = Inr result"
  shows "snd (summarizeSessionEvents env maxRetries now sid events w tbl) =
         fold (\<lambda>i t. markCompleted now t (id_col (events ! i)) (obsId_for (observationIds result) i))
           [0..<length events] tbl"
  using assms
  by (cases events) (simp_all add: summarizeSessionEvents_def or_null_string_def Let_def)

lemma marks_without_observations:
  assumes "getSessionById env sid = Some sessionRecord"
    and "sess_memory_session_id sessionRecord = Some m" "m \<noteq> []"
    and "callLLM env (buildBatchPrompt env events (sess_project sessionRecord)) = Inr response"
    and "events \<noteq> []"
    and "parseObservations env (content response) (content_session_id (hd events)) = []"
  shows "snd (summarizeSessionEvents env maxRetries now sid events w tbl) =
     map (\<lambda>r. if id_col r \<in> id_col ` set events then completed_with now 0 r else r) tbl"
  by (simp add: summarize_no_observations [OF assms] fold_markCompleted_const)

lemma marks_with_observations:
  assumes "getSessionById env sid = Some sessionRecord"
    and "sess_memory_session_id sessionRecord = Some m" "m \<noteq> []"
    and "callLLM env (buildBatchPrompt env events (sess_project sessionRecord)) = Inr response"
    and "events \<noteq> []"
    and "parseObservations env (content response) (content_session_id (hd events)) \<noteq> []"
    and "storeObservations env m (sess_project sessionRecord)
           (parseObservations env (content response) (content_session_id (hd events))) None
           (or_one (prompt_number (hd events))) (totalTokens response) = Inr result"
    and "length (observationIds result) =
           length (parseObservations env (content response) (content_session_id (hd events)))"
    and "distinct (map id_col events)"
  shows "length (snd (summarizeSessionEvents env maxRetries now sid events w tbl)) = length tbl"
    and "k < length tbl \<Longrightarrow> i < length events \<Longrightarrow> id_col (tbl ! k) = id_col (events ! i) \<Longrightarrow>
         snd (summarizeSessionEvents env maxRetries now sid events w tbl) ! k =
           completed_with now (observationIds result ! min i (length (observationIds result) - 1)) (tbl ! k)"
    and "k < length tbl \<Longrightarrow> id_col (tbl ! k) \<notin> id_col ` set events \<Longrightarrow>
         snd (summarizeSessionEvents env maxRetries now sid events w tbl) ! k = tbl ! k"
proof -
  let ?g = "\<lambda>i. obsId_for (observationIds result) i"
  let ?ps = "map (\<lambda>j. (id_col (events ! j), ?g j)) [0..<length events]"
  let ?tbl' = "snd (summarizeSessionEvents env maxRetries now sid events w tbl)"
  from assms(6,8) have ids: "observationIds result \<noteq> []" by auto
  have eq: "?tbl' = map (\<lambda>r. case map_of ?ps (id_col r) of None \<Rightarrow> r
                             | Some obs \<Rightarrow> completed_with now obs r) tbl"
    unfolding summarize_stored [OF assms(1-7)]
    by (rule fold_markCompleted_indexed [OF assms(9)])
  show "length ?tbl' = length tbl" by (simp add: eq)
  show "?tbl' ! k = completed_with now (observationIds result ! min i (length (observationIds result) - 1)) (tbl ! k)"
    if k: "k < length tbl" and i: "i < length events" and same: "id_col (tbl ! k) = id_col (events ! i)"
  proof -
    have "map_of ?ps (id_col (events ! i)) = Some (?g i)"
      by (rule map_of_indexed [OF assms(9) i])
    with k same have "?tbl' ! k = completed_with now (?g i) (tbl ! k)"
      by (simp add: eq)
    then show ?thesis by (simp add: obsId_for_clamped [OF ids])
  qed
  show "?tbl' ! k = tbl ! k" if k: "k < length tbl" and out: "id_col (tbl ! k) \<notin> id_col ` set events"
  proof -
    from out have "map_of ?ps (id_col (tbl ! k)) = None" by (rule map_of_indexed_None)
    with k show ?thesis by (simp add: eq)
  qed
qed

text \<open>
  C8.  Take a sub-batch of \<open>k \<ge> 1\<close> events with distinct keys whose session resolves
  to a record with a non-empty \<open>memory_session_id\<close> and whose LLM call succeeds, and let
  \<open>n\<close> be the number of observations parsed from the response.  If \<open>n = 0\<close>, every row
  whose key is the key of an event of the sub-batch is completed with
  \<open>observation_id = 0\<close>, and no other row changes.  If \<open>n > 0\<close> and the session store
  returns one id per observation, the row of the \<open>i\<close>-th event (counted from 0) is
  completed with the id at index \<open>min i (n - 1)\<close> of the returned list, so the events
  beyond the \<open>n\<close>-th reuse the last id; no other row changes.
\<close>

theorem summarizeSessionEvents_marks:
  assumes "getSessionById env sid = Some sessionRecord"
    and "sess_memory_session_id sessionRecord = Some m" "m \<noteq> []"
    and "callLLM env (buildBatchPrompt env events (sess_project sessionRecord)) = Inr response"
    and "events \<noteq> []" "distinct (map id_col events)"
    and "observations = parseObservations env (content response) (content_session_id (hd events))"
    and "tbl' = snd (summarizeSessionEvents env maxRetries now sid events w tbl)"
  shows
    "(length observations = 0 \<longrightarrow>
        length tbl' = length tbl \<and>
        (\<forall>k<length tbl.
           tbl' ! k = (if id_col (tbl ! k) \<in> id_col ` set events
                       then (tbl ! k)\<lparr>status := Completed, observation_id := Some 0,
                                       summarized_at_epoch := Some now\<rparr>
                       else tbl ! k))) \<and>
     (0 < length observations \<longrightarrow>
        (\<forall>result.
           storeObservations env m (sess_project sessionRecord) observations None
             (or_one (prompt_number (hd events))) (totalTokens response) = Inr result \<and>
           length (observationIds result) = length observations \<longrightarrow>
           length tbl' = length tbl \<and>
           (\<forall>k<length tbl.
              (\<forall>i<length events.
                 id_col (tbl ! k) = id_col (events ! i) \<longrightarrow>
                 tbl' ! k = (tbl ! k)\<lparr>status := Completed,
                               observation_id := Some (observationIds result ! min i (length observations - 1)),
                               summarized_at_epoch := Some now\<rparr>) \<and>
              (id_col (tbl ! k) \<notin> id_col ` set events \<longrightarrow> tbl' ! k = tbl ! k))))"
proof (rule conjI; rule impI)
  assume "length observations = 0"
  then have "parseObservations env (content response) (content_session_id (hd events)) = []"
    using assms(7) by simp
  from marks_without_observations [OF assms(1-5) this]
  show "length tbl' = length tbl \<and>
        (\<forall>k<length tbl.
           tbl' ! k = (if id_col (tbl ! k) \<in> id_col ` set events
                       then (tbl ! k)\<lparr>status := Completed, observation_id := Some 0,
                                       summarized_at_epoch := Some now\<rparr>
                       else tbl ! k))"
    by (simp add: assms(8) completed_with_def)
next
  assume pos: "0 < length observations"
  then have ne: "parseObservations env (content response) (content_session_id (hd events)) \<noteq> []"
    using assms(7) by auto
  show "\<forall>result.
           storeObservations env m (sess_project sessionRecord) observations None
             (or_one (prompt_number (hd events))) (totalTokens response) = Inr result \<and>
           length (observationIds result) = length observations \<longrightarrow>
           length tbl' = length tbl \<and>
           (\<forall>k<length tbl.
              (\<forall>i<length events.
                 id_col (tbl ! k) = id_col (events ! i) \<longrightarrow>
                 tbl' ! k = (tbl ! k)\<lparr>status := Completed,
                               observation_id := Some (observationIds result ! min i (length observations - 1)),
                               summarized_at_epoch := Some now\<rparr>) \<and>
              (id_col (tbl ! k) \<notin> id_col ` set events \<longrightarrow> tbl' ! k = tbl ! k))"
  proof (rule allI, rule impI, elim conjE)
    fix result
    assume st: "storeObservations env m (sess_project sessionRecord) observations None
             (or_one (prompt_number (hd events))) (totalTokens response) = Inr result"
      and len: "length (observationIds result) = length observations"
    note facts = marks_with_observations [OF assms(1-5) ne st [unfolded assms(7)] len [unfolded assms(7)]
        assms(6), where maxRetries=maxRetries and now=now and w=w and tbl=tbl, folded assms(8)]
    show "length tbl' = length tbl \<and>
           (\<forall>k<length tbl.
              (\<forall>i<length events.
                 id_col (tbl ! k) = id_col (events ! i) \<longrightarrow>
                 tbl' ! k = (tbl ! k)\<lparr>status := Completed,
                               observation_id := Some (observationIds result ! min i (length observations - 1)),
                               summarized_at_epoch := Some now\<rparr>) \<and>
              (id_col (tbl ! k) \<notin> id_col ` set events \<longrightarrow> tbl' ! k = tbl ! k))"
      using facts len by (simp add: completed_with_def)
  qed
qed

theorem summarizeSessionEvents_marks_witness:
  "observation_id (snd (summarizeSessionEvents sample_env 3 50 7 sample_claimed
       (new_RawEventSummarizer None) sample_claimed) ! 0) = Some 11 \<and>
   observation_id (snd (summarizeSessionEvents sample_env 3 50 7 sample_claimed
       (new_RawEventSummarizer None) sample_claimed) ! 1) = Some 12 \<and>
   snd (summarizeSessionEvents sample_env 3 50 7 sample_claimed
       (new_RawEventSummarizer None) sample_claimed) ! 2 =
     (sample_event 3 7 Completed 0 30)\<lparr>observation_id := Some 12, summarized_at_epoch := Some 50\<rparr> \<and>
   snd (summarizeSessionEvents sample_env_silent 3 50 7 sample_claimed
       (new_RawEventSummarizer None) sample_claimed) ! 2 =
     (sample_event 3 7 Completed 0 30)\<lparr>observation_id := Some 0, summarized_at_epoch := Some 50\<rparr>"
proof -
  let ?rec = "\<lparr> sess_memory_session_id = Some ''m'', sess_project = ''p'' \<rparr>"
  let ?resp = "\<lparr> content = ''<observation/>'', totalTokens = 1 \<rparr>"
  let ?w = "new_RawEventSummarizer None"
  have ne: "sample_claimed \<noteq> []" and d: "distinct (map id_col sample_claimed)"
    and l: "length sample_claimed = 3"
    by (simp_all add: sample_claimed_def sample_event_def)
  have n: "sample_claimed ! 0 = sample_event 1 7 Summarizing 0 10"
    "sample_claimed ! 1 = sample_event 2 7 Summarizing 0 20"
    "sample_claimed ! 2 = sample_event 3 7 Summarizing 0 30"
    by (simp_all add: sample_claimed_def)
  have ids: "id_col ` set sample_claimed = {1, 2, 3}"
    by (auto simp: sample_claimed_def sample_event_def)
  note t = summarizeSessionEvents_marks [where env=sample_env and sid=7 and sessionRecord="?rec"
      and m="''m''" and events=sample_claimed and response="?resp" and observations="[11, 12]"
      and maxRetries=3 and now=50 and w="?w" and tbl=sample_claimed, OF _ _ _ _ ne d _ refl]
  have t1: "0 < length [11::nat, 12] \<longrightarrow>
        (\<forall>result.
           storeObservations sample_env ''m'' (sess_project ?rec) [11, 12] None
             (or_one (prompt_number (hd sample_claimed))) (totalTokens ?resp) = Inr result \<and>
           length (observationIds result) = length [11::nat, 12] \<longrightarrow>
           length (snd (summarizeSessionEvents sample_env 3 50 7 sample_claimed ?w sample_claimed))
             = length sample_claimed \<and>
           (\<forall>k<length sample_claimed.
              (\<forall>i<length sample_claimed.
                 id_col (sample_claimed ! k) = id_col (sample_claimed ! i) \<longrightarrow>
                 snd (summarizeSessionEvents sample_env 3 50 7 sample_claimed ?w sample_claimed) ! k =
                   (sample_claimed ! k)\<lparr>status := Completed,
                               observation_id := Some (observationIds result ! min i (length [11::nat, 12] - 1)),
                               summarized_at_epoch := Some 50\<rparr>) \<and>
              (id_col (sample_claimed ! k) \<notin> id_col ` set sample_claimed \<longrightarrow>
                 snd (summarizeSessionEvents sample_env 3 50 7 sample_claimed ?w sample_claimed) ! k =
                   sample_claimed ! k)))"
    by (rule t [THEN conjunct2]) (simp_all add: sample_env_def)
  have st: "storeObservations sample_env ''m'' (sess_project ?rec) [11, 12] None
             (or_one (prompt_number (hd sample_claimed))) (totalTokens ?resp)
            = Inr \<lparr> observationIds = [11, 12], summaryId = Some 5 \<rparr>"
    by (simp add: sample_env_def)
  from t1 st have pt: "\<forall>k<3. \<forall>i<3.
                 id_col (sample_claimed ! k) = id_col (sample_claimed ! i) \<longrightarrow>
                 snd (summarizeSessionEvents sample_env 3 50 7 sample_claimed ?w sample_claimed) ! k =
                   (sample_claimed ! k)\<lparr>status := Completed,
                               observation_id := Some ([11, 12] ! min i 1),
                               summarized_at_epoch := Some 50\<rparr>"
    by (simp add: l)
  from pt [rule_format, of 0 0] have a0: "snd (summarizeSessionEvents sample_env 3 50 7 sample_claimed ?w sample_claimed) ! 0 =
      (sample_claimed ! 0)\<lparr>status := Completed, observation_id := Some ([11, 12] ! min 0 1),
          summarized_at_epoch := Some 50\<rparr>"
    by simp
  from pt [rule_format, of 1 1] have a1: "snd (summarizeSessionEvents sample_env 3 50 7 sample_claimed ?w sample_claimed) ! 1 =
      (sample_claimed ! 1)\<lparr>status := Completed, observation_id := Some ([11, 12] ! min 1 1),
          summarized_at_epoch := Some 50\<rparr>"
    by simp
  from pt [rule_format, of 2 2] have a2: "snd (summarizeSessionEvents sample_env 3 50 7 sample_claimed ?w sample_claimed) ! 2 =
      (sample_claimed ! 2)\<lparr>status := Completed, observation_id := Some ([11, 12] ! min 2 1),
          summarized_at_epoch := Some 50\<rparr>"
    by simp
  note s = summarizeSessionEvents_marks [where env=sample_env_silent and sid=7 and sessionRecord="?rec"
      and m="''m''" and events=sample_claimed and response="?resp" and observations="[]"
      and maxRetries=3 and now=50 and w="?w" and tbl=sample_claimed, OF _ _ _ _ ne d _ refl]
  have s1: "length ([]::nat list) = 0 \<longrightarrow>
        length (snd (summarizeSessionEvents sample_env_silent 3 50 7 sample_claimed ?w sample_claimed))
          = length sample_claimed \<and>
        (\<forall>k<length sample_claimed.
           snd (summarizeSessionEvents sample_env_silent 3 50 7 sample_claimed ?w sample_claimed) ! k =
             (if id_col (sample_claimed ! k) \<in> id_col ` set sample_claimed
              then (sample_claimed ! k)\<lparr>status := Completed, observation_id := Some 0,
                                       summarized_at_epoch := Some 50\<rparr>
              else sample_claimed ! k))"
    by (rule s [THEN conjunct1]) (simp_all add: sample_env_def sample_env_silent_def)
  from this [THEN mp, THEN conjunct2, rule_format, of 2]
  have b2: "snd (summarizeSessionEvents sample_env_silent 3 50 7 sample_claimed ?w sample_claimed) ! 2 =
      (sample_claimed ! 2)\<lparr>status := Completed, observation_id := Some 0,
          summarized_at_epoch := Some 50\<rparr>"
    by (simp add: l ids n sample_event_def)
  show ?thesis
    unfolding a0 a1 a2 b2 by (simp add: n sample_event_def)
qed

section \<open>The tick of the event worker\<close>

text \<open>
  C6.  The property: every 30th tick of the event worker releases the stuck
  \<open>Summarizing\<close> rows before it claims a batch.  The code does not have it.
  \<open>processBatch\<close> of the event worker never calls \<^verbatim>\<open>releaseStuckEvents\<close>: on the 30th tick
  of a worker whose table holds one row that has been \<open>Summarizing\<close> for far longer than
  five minutes, the counter becomes 30 and the row is still \<open>Summarizing\<close>.
  \<open>processBatch\<close> of the summary worker does release on every 30th tick, and the
  five-minute default of \<^verbatim>\<open>releaseStuckEvents\<close> is the threshold of a call made while the
  worker runs; with \<open>start()\<close> as the only caller, a row left \<open>Summarizing\<close> by a tick that
  was cut short stays so until the worker is started again five minutes or more after
  the row was created.
\<close>

theorem processBatch_events_tick_30_releases_nothing:
  "batchCounter (fst (processBatch_events sample_env 3 1000000 sample_worker_29
      [sample_event 1 7 Summarizing 0 0])) = 30 \<and>
   snd (processBatch_events sample_env 3 1000000 sample_worker_29
      [sample_event 1 7 Summarizing 0 0]) = [sample_event 1 7 Summarizing 0 0]"
  by (simp add: processBatch_events_def sample_worker_29_def new_RawEventSummarizer_def
        cleanupEveryNBatches_def claimBatchForSummarization_def sql_select_def
        sample_event_def Let_def or_default_def)

lemma markCompleted_keeps: "r \<in> set t \<Longrightarrow> id_col r \<noteq> i \<Longrightarrow> r \<in> set (markCompleted now t i obs)"
  by (auto simp: markCompleted_def sql_update_def image_iff intro!: bexI [of _ r])

lemma markFailed_keeps: "r \<in> set t \<Longrightarrow> id_col r \<noteq> i \<Longrightarrow> r \<in> set (markFailed m t i msg)"
  by (auto simp: markFailed_def sql_update_def Let_def image_iff intro!: bexI [of _ r])

lemma fold_keeps:
  assumes "\<And>t x. r \<in> set t \<Longrightarrow> x \<in> set xs \<Longrightarrow> r \<in> set (f x t)"
  shows "r \<in> set t \<Longrightarrow> r \<in> set (fold f xs t)"
  using assms by (induction xs arbitrary: t) auto

lemma fail_events_keeps:
  "r \<in> set t \<Longrightarrow> id_col r \<notin> id_col ` set events \<Longrightarrow>
   r \<in> set (snd (fail_events m msg events w t))"
  unfolding fail_events_def snd_conv
  by (rule fold_keeps) (auto intro: markFailed_keeps)

lemma summarizeSessionEvents_keeps:
  assumes "r \<in> set t" "id_col r \<notin> id_col ` set events"
  shows "r \<in> set (snd (summarizeSessionEvents env m now sid events w t))"
proof -
  have c0: "r \<in> set (fold (\<lambda>event t. markCompleted now t (id_col event) 0) events t)"
    using assms by (intro fold_keeps) (auto intro: markCompleted_keeps)
  have c1: "r \<in> set (fold (\<lambda>i t. markCompleted now t (id_col (events ! i)) (g i)) [0..<length events] t)" for g
    using assms by (intro fold_keeps) (auto intro!: markCompleted_keeps)
  show ?thesis
    unfolding summarizeSessionEvents_def Let_def
    using c0 c1 fail_events_keeps [OF assms]
    by (auto split: option.splits sum.splits list.splits)
qed


lemma grouped_push_event: "grouped (push_event e acc) = insert e (grouped acc)"
  by (induction e acc rule: push_event.induct) (auto simp: grouped_def)

lemma grouped_fold: "grouped (fold push_event events acc) = set events \<union> grouped acc"
  by (induction events arbitrary: acc) (auto simp: grouped_push_event)

lemma groupBySession_members:
  "g \<in> set (groupBySession batch) \<Longrightarrow> set (snd g) \<subseteq> set batch"
proof -
  assume "g \<in> set (groupBySession batch)"
  then have "set (snd g) \<subseteq> grouped (groupBySession batch)" by (auto simp: grouped_def)
  also have "\<dots> = set batch" by (simp add: groupBySession_def grouped_fold) (simp add: grouped_def)
  finally show ?thesis .
qed

lemma fold_groups_keeps:
  assumes "\<And>g. g \<in> set groups \<Longrightarrow> id_col r \<notin> id_col ` set (snd g)"
  shows "r \<in> set t \<Longrightarrow>
     r \<in> set (snd (fold (\<lambda>(sid, events) (v, t). summarizeSessionEvents env m now sid events v t)
                      groups (w, t)))"
  using assms
proof (induction groups arbitrary: w t)
  case Nil
  then show ?case by simp
next
  case (Cons g gs)
  obtain sid events where g: "g = (sid, events)" by (cases g)
  obtain w' t' where step: "summarizeSessionEvents env m now sid events w t = (w', t')"
    by (cases "summarizeSessionEvents env m now sid events w t")
  from Cons.prems(2) [of g] g have "id_col r \<notin> id_col ` set events" by simp
  with Cons.prems(1) have "r \<in> set (snd (summarizeSessionEvents env m now sid events w t))"
    by (rule summarizeSessionEvents_keeps)
  with step have "r \<in> set t'" by simp
  then have "r \<in> set (snd (fold (\<lambda>(sid, events) (v, t). summarizeSessionEvents env m now sid events v t)
                      gs (w', t')))"
    by (rule Cons.IH) (use Cons.prems(2) in auto)
  then show ?case by (simp add: g step)
qed

lemma claim_keeps:
  assumes "distinct (map id_col t)" "r \<in> set t" "status r \<noteq> Pending"
  shows "r \<in> set (snd (claimBatchForSummarization limit t))"
    and "id_col r \<notin> id_col ` set (fst (claimBatchForSummarization limit t))"
proof -
  have "r \<notin> set (fst (claimBatchForSummarization limit t))"
    using assms(3) claim_batch_subset [of r limit t] by auto
  with claim_ids_iff [OF assms(1,2), of limit]
  show out: "id_col r \<notin> id_col ` set (fst (claimBatchForSummarization limit t))" by simp
  then show "r \<in> set (snd (claimBatchForSummarization limit t))"
    using assms(2) by (subst claim_snd) (auto simp: image_iff intro!: bexI [of _ r])
qed

lemma sql_delete_keeps: "r \<in> set t \<Longrightarrow> \<not> c r \<Longrightarrow> r \<in> set (fst (sql_delete c t))"
  by (simp add: sql_delete_def)

lemma sql_delete_distinct:
  "distinct (map id_col t) \<Longrightarrow> distinct (map id_col (fst (sql_delete c t)))"
  by (simp add: sql_delete_def distinct_map_filter)

lemma processBatch_events_snd:
  "\<not> isProcessing w \<Longrightarrow>
   snd (processBatch_events env m now w tbl) =
     (let w1 = w\<lparr>isProcessing := True, batchCounter := batchCounter w + 1\<rparr>;
          p = (if batchCounter w1 mod cleanupEveryNBatches = 0
               then cleanupCompletedEvents now w1 tbl else (w1, tbl));
          c = claimBatchForSummarization (batchSize (fst p)) (snd p)
      in if fst c = [] then snd c
         else snd (fold (\<lambda>(sid, events) (v, t). summarizeSessionEvents env m now sid events v t)
                     (groupBySession (fst c)) (fst p, snd c)))"
  by (simp add: processBatch_events_def Let_def case_prod_beta)

text \<open>
  The same for every tick: on a table with distinct keys, every row that is
  \<open>Summarizing\<close> when a tick of the event worker starts is in the table, unchanged, when
  the tick ends, whatever the tick count, the clock and the collaborators are.
\<close>

lemma processBatch_events_never_releases:
  assumes "distinct (map id_col tbl)"
  shows "\<forall>r\<in>set tbl. status r = Summarizing \<longrightarrow>
           r \<in> set (snd (processBatch_events env maxRetries now w tbl))"
proof (intro ballI impI)
  fix r assume r: "r \<in> set tbl" and s: "status r = Summarizing"
  show "r \<in> set (snd (processBatch_events env maxRetries now w tbl))"
  proof (cases "isProcessing w")
    case True
    with r show ?thesis by (simp add: processBatch_events_def)
  next
    case False
    define w1 where "w1 = w\<lparr>isProcessing := True, batchCounter := batchCounter w + 1\<rparr>"
    define p where "p = (if batchCounter w1 mod cleanupEveryNBatches = 0
               then cleanupCompletedEvents now w1 tbl else (w1, tbl))"
    define c where "c = claimBatchForSummarization (batchSize (fst p)) (snd p)"
    have r1: "r \<in> set (snd p)" and d1: "distinct (map id_col (snd p))"
      using r s assms
      by (auto simp: p_def cleanupCompletedEvents_def deleteCompleted_def Let_def sql_delete_keeps
            sql_delete_distinct)
    from claim_keeps [OF d1 r1, of "batchSize (fst p)"] s
    have r2: "r \<in> set (snd c)" and out: "id_col r \<notin> id_col ` set (fst c)"
      by (simp_all add: c_def)
    have "r \<in> set (snd (fold (\<lambda>(sid, events) (v, t).
                   summarizeSessionEvents env maxRetries now sid events v t)
                 (groupBySession (fst c)) (fst p, snd c)))"
    proof (rule fold_groups_keeps [OF _ r2])
      fix g assume "g \<in> set (groupBySession (fst c))"
      then have "set (snd g) \<subseteq> set (fst c)" by (rule groupBySession_members)
      with out show "id_col r \<notin> id_col ` set (snd g)" by auto
    qed
    moreover have "snd (processBatch_events env maxRetries now w tbl) =
        (if fst c = [] then snd c
         else snd (fold (\<lambda>(sid, events) (v, t).
                   summarizeSessionEvents env maxRetries now sid events v t)
                 (groupBySession (fst c)) (fst p, snd c)))"
      unfolding processBatch_events_snd [OF False] Let_def c_def p_def w1_def by (rule refl)
    ultimately show ?thesis using r2 by simp
  qed
qed

lemma processBatch_events_never_releases_example:
  "distinct (map id_col [sample_event 1 7 Summarizing 0 0, sample_event 2 7 Pending 0 5]) \<and>
   status (sample_event 1 7 Summarizing 0 0) = Summarizing \<and>
   sample_event 1 7 Summarizing 0 0 \<in>
     set (snd (processBatch_events sample_env 3 1000000 sample_worker_29
            [sample_event 1 7 Summarizing 0 0, sample_event 2 7 Pending 0 5]))"
proof -
  have d: "distinct (map id_col [sample_event 1 7 Summarizing 0 0, sample_event 2 7 Pending 0 5])"
    by (simp add: sample_event_def)
  have s: "status (sample_event 1 7 Summarizing 0 0) = Summarizing" by (simp add: sample_event_def)
  from processBatch_events_never_releases [OF d, of sample_env 3 1000000 sample_worker_29] s d
  show ?thesis by simp
qed

section \<open>Stall release on the summary queue\<close>

lemma releaseStuckRequests_idem:
  "fst (releaseStuckRequests (fst (releaseStuckRequests tbl))) = fst (releaseStuckRequests tbl)"
  by (simp add: releaseStuckRequests_def sql_update_def)

lemma summarizeRequest_batchCounter:
  "batchCounter (fst (summarizeRequest env m now request w tbl)) = batchCounter w"
  by (simp add: summarizeRequest_def Let_def split: sum.splits option.splits)

lemma fold_summarizeRequest_batchCounter:
  "batchCounter (fst (fold (\<lambda>request (v, t). summarizeRequest env m now request v t) batch (w, tbl)))
     = batchCounter w"
proof (induction batch arbitrary: w tbl)
  case Nil
  show ?case by simp
next
  case (Cons request batch)
  obtain w' tbl' where step: "summarizeRequest env m now request w tbl = (w', tbl')"
    by (cases "summarizeRequest env m now request w tbl")
  with summarizeRequest_batchCounter [of env m now request w tbl]
  have "batchCounter w' = batchCounter w" by simp
  with Cons.IH [of w' tbl'] show ?case by (simp add: step)
qed

lemma processBatch_summary_batchCounter:
  "\<not> isProcessing w \<Longrightarrow>
   batchCounter (fst (processBatch_summary env m now w tbl)) = batchCounter w + 1"
  by (simp add: processBatch_summary_def Let_def case_prod_beta fold_summarizeRequest_batchCounter
        split: prod.splits)

text \<open>
  C10.  \<open>releaseStuckRequests\<close> takes the table only: it keeps the rows and their order,
  turns every \<open>Summarizing\<close> row into a \<open>Pending\<close> one whatever its
  \<open>created_at_epoch\<close>, changes nothing else, and reports the number of rows it
  changed.  \<open>start()\<close> of the summary worker, when the worker is not yet running,
  leaves exactly the released table.  A tick that is not skipped adds one to the tick
  counter, and when the new count is a multiple of 30 the tick does what it would do on
  the released table: the release comes first, before the claim.
\<close>

theorem releaseStuckRequests_unconditional:
  "length (fst (releaseStuckRequests tbl)) = length tbl \<and>
   (\<forall>k<length tbl.
      fst (releaseStuckRequests tbl) ! k =
        (if status (tbl ! k) = Summarizing then (tbl ! k)\<lparr>status := Pending\<rparr> else tbl ! k)) \<and>
   snd (releaseStuckRequests tbl) = length (filter (\<lambda>r. status r = Summarizing) tbl) \<and>
   (\<not> running w \<longrightarrow>
      start_summary w tbl = (w\<lparr>running := True\<rparr>, fst (releaseStuckRequests tbl))) \<and>
   (\<not> isProcessing w \<and> (batchCounter w + 1) mod 30 = 0 \<longrightarrow>
      batchCounter (fst (processBatch_summary env maxRetries now w tbl)) = batchCounter w + 1 \<and>
      processBatch_summary env maxRetries now w tbl =
        processBatch_summary env maxRetries now w (fst (releaseStuckRequests tbl)))"
proof (intro conjI)
  show "length (fst (releaseStuckRequests tbl)) = length tbl"
    by (simp add: releaseStuckRequests_def sql_update_length)
  show "\<forall>k<length tbl.
      fst (releaseStuckRequests tbl) ! k =
        (if status (tbl ! k) = Summarizing then (tbl ! k)\<lparr>status := Pending\<rparr> else tbl ! k)"
    by (simp add: releaseStuckRequests_def sql_update_nth)
  show "snd (releaseStuckRequests tbl) = length (filter (\<lambda>r. status r = Summarizing) tbl)"
    by (simp add: releaseStuckRequests_def sql_update_changes)
  show "\<not> running w \<longrightarrow>
      start_summary w tbl = (w\<lparr>running := True\<rparr>, fst (releaseStuckRequests tbl))"
    by (simp add: start_summary_def Let_def)
  show "\<not> isProcessing w \<and> (batchCounter w + 1) mod 30 = 0 \<longrightarrow>
      batchCounter (fst (processBatch_summary env maxRetries now w tbl)) = batchCounter w + 1 \<and>
      processBatch_summary env maxRetries now w tbl =
        processBatch_summary env maxRetries now w (fst (releaseStuckRequests tbl))"
  proof (rule impI, elim conjE, rule conjI)
    assume np: "\<not> isProcessing w" and t: "(batchCounter w + 1) mod 30 = 0"
    show "processBatch_summary env maxRetries now w tbl =
        processBatch_summary env maxRetries now w (fst (releaseStuckRequests tbl))"
      using np t
      by (simp add: processBatch_summary_def Let_def staleCheckEveryNBatches_def
            releaseStuckRequests_idem)
    show "batchCounter (fst (processBatch_summary env maxRetries now w tbl)) = batchCounter w + 1"
      using np by (rule processBatch_summary_batchCounter)
  qed
qed


theorem releaseStuckRequests_unconditional_witness:
  "fst (releaseStuckRequests [sample_request Summarizing 2 None]) ! 0 = sample_request Pending 2 None \<and>
   snd (start_summary (new_RawSummarySummarizer None) [sample_request Summarizing 2 None])
     = [sample_request Pending 2 None] \<and>
   batchCounter (fst (processBatch_summary sample_env 3 50 sample_summary_worker_29
      [sample_request Summarizing 2 None])) = 30 \<and>
   snd (processBatch_summary sample_env 3 50 sample_summary_worker_29 [sample_request Summarizing 2 None])
     = [(sample_request Completed 2 None)\<lparr>summary_id := Some 5, summarized_at_epoch := Some 50\<rparr>]"
proof -
  let ?tbl = "[sample_request Summarizing 2 None]"
  note t = releaseStuckRequests_unconditional [of ?tbl _ sample_env 3 50]
  have rel: "fst (releaseStuckRequests ?tbl) ! 0 = sample_request Pending 2 None"
    using t [of "new_RawSummarySummarizer None", THEN conjunct2, THEN conjunct1, rule_format, of 0]
    by (simp add: sample_request_def)
  have len: "length (fst (releaseStuckRequests ?tbl)) = 1"
    using t [of "new_RawSummarySummarizer None", THEN conjunct1] by simp
  from rel len have released: "fst (releaseStuckRequests ?tbl) = [sample_request Pending 2 None]"
    by (cases "fst (releaseStuckRequests ?tbl)") simp_all
  have st: "start_summary (new_RawSummarySummarizer None) ?tbl =
      ((new_RawSummarySummarizer None)\<lparr>running := True\<rparr>, fst (releaseStuckRequests ?tbl))"
    using t [of "new_RawSummarySummarizer None"] by (simp add: new_RawSummarySummarizer_def)
  have np: "\<not> isProcessing sample_summary_worker_29 \<and> (batchCounter sample_summary_worker_29 + 1) mod 30 = 0"
    by (simp add: sample_summary_worker_29_def new_RawSummarySummarizer_def)
  note tk = t [of sample_summary_worker_29, THEN conjunct2, THEN conjunct2, THEN conjunct2,
      THEN conjunct2, rule_format, OF np]
  from tk [THEN conjunct1]
  have cnt: "batchCounter (fst (processBatch_summary sample_env 3 50 sample_summary_worker_29 ?tbl)) = 30"
    by (simp add: sample_summary_worker_29_def new_RawSummarySummarizer_def)
  note tick = tk [THEN conjunct2]
  have "snd (processBatch_summary sample_env 3 50 sample_summary_worker_29 [sample_request Pending 2 None])
     = [(sample_request Completed 2 None)\<lparr>summary_id := Some 5, summarized_at_epoch := Some 50\<rparr>]"
    by (simp add: processBatch_summary_def sample_summary_worker_29_def new_RawSummarySummarizer_def
          or_default_def staleCheckEveryNBatches_def claimBatchForSummarization_def sql_select_def
          sql_update_def Let_def sample_request_def summarizeRequest_def sample_env_def
          or_null_string_def markCompleted_summary_def or_zero_def releaseStuckRequests_def)
  with rel st cnt show ?thesis by (simp add: tick released)
qed

section \<open>Duplicate summary requests\<close>

text \<open>
  C7 (as stated: inserting is rejected while the session has an active request).
  \<open>insertRaw\<close> of the summary queue makes no check: a second insert for session 42,
  made while \<open>hasPendingForSession\<close> is true for it, is queued, and two rows of
  session 42 are active.
\<close>

theorem insertRaw_summary_queues_duplicate:
  "hasPendingForSession (snd (insertRaw_summary 0 [] 42 ''c'' sample_request_input)) 42 \<and>
   sql_count (\<lambda>r. session_db_id r = 42 \<and> status r \<in> {Pending, Summarizing})
     (snd (insertRaw_summary 1 (snd (insertRaw_summary 0 [] 42 ''c'' sample_request_input))
        42 ''c'' sample_request_input)) = 2"
  by (simp add: insertRaw_summary_def hasPendingForSession_def sql_count_def Let_def next_rowid_def)

lemma hasPendingForSession_iff:
  "hasPendingForSession tbl sid \<longleftrightarrow>
     (\<exists>r\<in>set tbl. session_db_id r = sid \<and> (status r = Pending \<or> status r = Summarizing))"
  by (auto simp: hasPendingForSession_def sql_count_def filter_empty_conv)

lemma active_sessions_subset:
  assumes "\<And>r. r \<in> set tbl \<Longrightarrow> session_db_id (f r) = session_db_id r \<and> (active (f r) \<longrightarrow> active r)"
  shows "session_db_id ` set (filter active (map f tbl)) \<subseteq> session_db_id ` set (filter active tbl)"
  using assms by (auto simp: image_iff)

lemma one_active_update:
  assumes "\<And>r. r \<in> set tbl \<Longrightarrow> session_db_id (f r) = session_db_id r \<and> (active (f r) \<longrightarrow> active r)"
    and "one_active_per_session tbl"
  shows "one_active_per_session (map f tbl)"
  using assms
proof (induction tbl)
  case Nil
  then show ?case by (simp add: one_active_per_session_def)
next
  case (Cons r tbl)
  from Cons.prems(2) have inv: "one_active_per_session tbl"
    by (auto simp: one_active_per_session_def split: if_splits)
  have IH: "one_active_per_session (map f tbl)"
    by (rule Cons.IH [OF _ inv]) (use Cons.prems(1) in auto)
  have sub: "session_db_id ` set (filter active (map f tbl)) \<subseteq> session_db_id ` set (filter active tbl)"
    by (rule active_sessions_subset) (use Cons.prems(1) in auto)
  show ?case
  proof (cases "active (f r)")
    case True
    with Cons.prems(1) [of r] have a: "active r" and s: "session_db_id (f r) = session_db_id r" by auto
    from a Cons.prems(2) have "session_db_id r \<notin> session_db_id ` set (filter active tbl)"
      by (auto simp: one_active_per_session_def)
    with sub s have "session_db_id (f r) \<notin> session_db_id ` set (filter active (map f tbl))" by auto
    with True IH show ?thesis by (simp add: one_active_per_session_def)
  next
    case False
    with IH show ?thesis by (simp add: one_active_per_session_def)
  qed
qed


lemma guarded_inv_update:
  assumes "guarded_inv tbl"
    and "\<And>r. id_col (a r) = id_col r"
    and "\<And>r. r \<in> set tbl \<Longrightarrow> c r \<Longrightarrow>
           session_db_id (a r) = session_db_id r \<and> (active (a r) \<longrightarrow> active r)"
  shows "guarded_inv (fst (sql_update c a tbl))"
proof -
  have "one_active_per_session (map (\<lambda>r. if c r then a r else r) tbl)"
    by (rule one_active_update) (use assms in \<open>auto simp: guarded_inv_def\<close>)
  moreover have "distinct (map id_col (fst (sql_update c a tbl)))"
    using assms(1,2) by (simp add: sql_update_ids guarded_inv_def)
  ultimately show ?thesis by (simp add: guarded_inv_def sql_update_def)
qed

lemma guarded_inv_claim:
  assumes "guarded_inv tbl"
  shows "guarded_inv (snd (claimBatchForSummarization limit tbl))"
proof -
  have "snd (claimBatchForSummarization limit tbl) =
      fst (sql_update (\<lambda>r. id_col r \<in> id_col ` set (fst (claimBatchForSummarization limit tbl)))
             (\<lambda>r. r\<lparr>status := Summarizing\<rparr>) tbl)"
    by (subst claim_snd) (simp add: sql_update_def)
  moreover have "guarded_inv \<dots>"
  proof (rule guarded_inv_update [OF assms])
    fix r assume r: "r \<in> set tbl"
      and "id_col r \<in> id_col ` set (fst (claimBatchForSummarization limit tbl))"
    with assms have "r \<in> set (fst (claimBatchForSummarization limit tbl))"
      by (simp add: claim_ids_iff guarded_inv_def)
    then have "status r = Pending" by (simp add: claim_batch_subset)
    then show "session_db_id (r\<lparr>status := Summarizing\<rparr>) = session_db_id r \<and>
          (active (r\<lparr>status := Summarizing\<rparr>) \<longrightarrow> active r)"
      by (simp add: active_def)
  qed simp
  ultimately show ?thesis by simp
qed

lemma guarded_inv_markFailed:
  assumes "guarded_inv tbl" "r \<in> set tbl" "active r"
  shows "guarded_inv (markFailed m tbl (id_col r) msg)"
proof -
  from assms(1) have d: "distinct (map id_col tbl)" by (simp add: guarded_inv_def)
  have same: "x = r" if "x \<in> set tbl" "id_col x = id_col r" for x
    using d that assms(2) by (meson distinct_map inj_onD)
  show ?thesis
    unfolding markFailed_def Let_def
    by (auto intro!: guarded_inv_update [OF assms(1)] dest: same simp: assms(3))
qed

lemma guarded_summary_run_inv:
  "guarded_summary_run maxRetries tbl \<Longrightarrow> guarded_inv tbl"
proof (induction rule: guarded_summary_run.induct)
  case grun_empty
  show ?case by (simp add: guarded_inv_def one_active_per_session_def)
next
  case (grun_insertRaw tbl sid now csid data)
  from grun_insertRaw.hyps(2) have "sid \<notin> session_db_id ` set (filter active tbl)"
    by (auto simp: hasPendingForSession_iff active_def)
  with grun_insertRaw.IH show ?case
    by (auto simp: insertRaw_summary_def Let_def guarded_inv_def one_active_per_session_def
          next_rowid_fresh)
next
  case (grun_claim tbl limit)
  then show ?case by (simp add: guarded_inv_claim)
next
  case (grun_markCompleted tbl now i summaryId')
  show ?case
    unfolding markCompleted_summary_def
    by (rule guarded_inv_update [OF grun_markCompleted.IH]) (simp_all add: active_def)
next
  case (grun_markFailed tbl r errorMessage)
  then show ?case by (simp add: guarded_inv_markFailed active_def)
next
  case (grun_release tbl)
  show ?case
    unfolding releaseStuckRequests_def
    by (rule guarded_inv_update [OF grun_release.IH]) (simp_all add: active_def)
qed


section \<open>The workers stay within the runs\<close>

text \<open>Every \<open>markCompleted\<close> and \<open>markFailed\<close> of a tick is made on a row of the batch
  the tick has just claimed, before any other row of the batch is touched; so a tick is a
  sequence of steps of a run.\<close>

lemma open_ids_keep:
  assumes "open_ids ids tbl"
    and "\<And>r. r \<in> set tbl \<Longrightarrow> id_col r \<in> set ids \<Longrightarrow> r \<in> set tbl'"
  shows "open_ids ids tbl'"
  unfolding open_ids_def
proof
  fix i assume i: "i \<in> set ids"
  with assms(1) obtain r where r: "r \<in> set tbl" "id_col r = i" "status r \<noteq> Failed"
    by (auto simp: open_ids_def)
  with i have "r \<in> set tbl'" by (intro assms(2)) auto
  with r show "\<exists>r\<in>set tbl'. id_col r = i \<and> status r \<noteq> Failed" by auto
qed

lemma fold_markFailed_run:
  assumes "event_queue_run m l tbl" "open_ids ids tbl" "distinct ids"
  shows "event_queue_run m l (fold (\<lambda>i t. markFailed m t i msg) ids tbl)"
  using assms
proof (induction ids arbitrary: tbl)
  case Nil
  then show ?case by simp
next
  case (Cons i ids)
  from Cons.prems(2) obtain r where r: "r \<in> set tbl" "id_col r = i" "status r \<noteq> Failed"
    and rest: "open_ids ids tbl"
    by (auto simp: open_ids_def)
  have step: "event_queue_run m l (markFailed m tbl i msg)"
    using run_markFailed [OF Cons.prems(1) r(1) r(3), of msg] r(2) by simp
  have "open_ids ids (markFailed m tbl i msg)"
  proof (rule open_ids_keep [OF rest])
    fix x assume "x \<in> set tbl" "id_col x \<in> set ids"
    with Cons.prems(3) show "x \<in> set (markFailed m tbl i msg)"
      by (intro markFailed_keeps) auto
  qed
  with step Cons.prems(3) show ?case by (simp add: Cons.IH)
qed

lemma fold_markCompleted_run:
  assumes "event_queue_run m l tbl" "open_ids (map fst ps) tbl" "distinct (map fst ps)"
  shows "event_queue_run m l (fold (\<lambda>p t. markCompleted now t (fst p) (snd p)) ps tbl)"
  using assms
proof (induction ps arbitrary: tbl)
  case Nil
  then show ?case by simp
next
  case (Cons p ps)
  from Cons.prems(2) obtain r where r: "r \<in> set tbl" "id_col r = fst p" "status r \<noteq> Failed"
    and rest: "open_ids (map fst ps) tbl"
    by (auto simp: open_ids_def)
  have step: "event_queue_run m l (markCompleted now tbl (fst p) (snd p))"
    using run_markCompleted [OF Cons.prems(1) r(1) r(3), of now "snd p"] r(2) by simp
  have "open_ids (map fst ps) (markCompleted now tbl (fst p) (snd p))"
  proof (rule open_ids_keep [OF rest])
    fix x assume "x \<in> set tbl" "id_col x \<in> set (map fst ps)"
    with Cons.prems(3) show "x \<in> set (markCompleted now tbl (fst p) (snd p))"
      by (intro markCompleted_keeps) (auto simp: image_iff)
  qed
  with step Cons.prems(3) show ?case by (simp add: Cons.IH)
qed

lemma summarizeSessionEvents_run:
  assumes "event_queue_run m l tbl" "open_ids (map id_col events) tbl" "distinct (map id_col events)"
  shows "event_queue_run m l (snd (summarizeSessionEvents env m now sid events w tbl))"
proof -
  have f: "event_queue_run m l (snd (fail_events m msg events w tbl))" for msg
  proof -
    have "fold (\<lambda>event t. markFailed m t (id_col event) msg) events tbl =
          fold (\<lambda>i t. markFailed m t i msg) (map id_col events) tbl"
      by (simp add: fold_map comp_def)
    with fold_markFailed_run [OF assms] show ?thesis by (simp add: fail_events_def)
  qed
  have c0: "event_queue_run m l (fold (\<lambda>event t. markCompleted now t (id_col event) 0) events tbl)"
  proof -
    let ?ps = "map (\<lambda>e. (id_col e, 0::nat)) events"
    have "map fst ?ps = map id_col events" by (simp add: comp_def)
    with assms have "event_queue_run m l (fold (\<lambda>p t. markCompleted now t (fst p) (snd p)) ?ps tbl)"
      by (intro fold_markCompleted_run) (simp_all only:)
    then show ?thesis by (simp add: fold_map comp_def)
  qed
  have c1: "event_queue_run m l
      (fold (\<lambda>i t. markCompleted now t (id_col (events ! i)) (g i)) [0..<length events] tbl)" for g
  proof -
    let ?ps = "map (\<lambda>j. (id_col (events ! j), g j)) [0..<length events]"
    have "map fst ?ps = map id_col events" by (simp add: comp_def map_nth_key)
    with assms have "event_queue_run m l (fold (\<lambda>p t. markCompleted now t (fst p) (snd p)) ?ps tbl)"
      by (intro fold_markCompleted_run) (simp_all only:)
    then show ?thesis by (simp add: fold_map comp_def)
  qed
  show ?thesis
    unfolding summarizeSessionEvents_def Let_def
    using f c0 c1
    by (auto split: option.splits sum.splits list.splits)
qed


lemma grouped_concat: "set (concat (map snd acc)) = grouped acc"
  by (auto simp: grouped_def)

lemma push_event_distinct:
  assumes "distinct (map id_col (concat (map snd acc)))" "id_col e \<notin> id_col ` grouped acc"
  shows "distinct (map id_col (concat (map snd (push_event e acc))))"
  using assms
proof (induction e acc rule: push_event.induct)
  case (1 e)
  then show ?case by simp
next
  case (2 e k es acc)
  have g: "grouped ((k, es) # acc) = set es \<union> grouped acc" by (auto simp: grouped_def)
  have rec: "distinct (map id_col (concat (map snd ((k, es) # push_event e acc))))"
    if ih: "distinct (map id_col (concat (map snd (push_event e acc))))"
  proof -
    have "set (concat (map snd (push_event e acc))) = insert e (grouped acc)"
      by (simp only: grouped_concat grouped_push_event)
    with ih "2.prems" show ?thesis by (auto simp: grouped_def)
  qed
  show ?case
  proof (cases "session_db_id e = k")
    case True
    with "2.prems" show ?thesis by (auto simp: grouped_def)
  next
    case ne: False
    show ?thesis
    proof (cases "is_array_index (session_db_id e)")
      case idx: True
      show ?thesis
      proof (cases "is_array_index k \<and> k < session_db_id e")
        case True
        with ne idx "2.prems" have "distinct (map id_col (concat (map snd (push_event e acc))))"
          by (intro "2.IH"(1)) (auto simp: g)
        from rec [OF this] ne idx True show ?thesis by simp
      next
        case False
        with ne idx "2.prems" show ?thesis by (auto simp: grouped_def)
      qed
    next
      case nidx: False
      with ne "2.prems" have "distinct (map id_col (concat (map snd (push_event e acc))))"
        by (intro "2.IH"(2)) (auto simp: g)
      from rec [OF this] ne nidx show ?thesis by simp
    qed
  qed
qed

lemma groupBySession_distinct_aux:
  "distinct (map id_col (concat (map snd acc))) \<Longrightarrow> distinct (map id_col events) \<Longrightarrow>
   id_col ` set events \<inter> id_col ` grouped acc = {} \<Longrightarrow>
   distinct (map id_col (concat (map snd (fold push_event events acc))))"
proof (induction events arbitrary: acc)
  case Nil
  then show ?case by simp
next
  case (Cons e es)
  from Cons.prems have "distinct (map id_col (concat (map snd (push_event e acc))))"
    by (intro push_event_distinct) auto
  moreover from Cons.prems have "id_col ` set es \<inter> id_col ` grouped (push_event e acc) = {}"
    by (auto simp: grouped_push_event)
  ultimately show ?case using Cons.prems by (simp add: Cons.IH)
qed

lemma groupBySession_distinct:
  "distinct (map id_col batch) \<Longrightarrow> distinct (map id_col (concat (map snd (groupBySession batch))))"
  unfolding groupBySession_def
  by (rule groupBySession_distinct_aux) (simp_all add: grouped_def)

lemma claim_batch_distinct:
  assumes "distinct (map id_col tbl)"
  shows "distinct (map id_col (fst (claimBatchForSummarization limit tbl)))"
proof -
  let ?p = "filter (\<lambda>r. status r = Pending) tbl"
  from assms have "distinct (map id_col ?p)" by (rule distinct_map_filter)
  then have "distinct (map id_col (sort_key created_at_epoch ?p))"
    by (simp add: distinct_map)
  then have "distinct (take limit (map id_col (sort_key created_at_epoch ?p)))"
    by (rule distinct_take)
  then show ?thesis by (simp add: claim_fst take_map)
qed

lemma claim_batch_open:
  "open_ids (map id_col (fst (claimBatchForSummarization limit tbl)))
     (snd (claimBatchForSummarization limit tbl))"
  unfolding open_ids_def
proof
  fix i assume "i \<in> set (map id_col (fst (claimBatchForSummarization limit tbl)))"
  then obtain e where e: "e \<in> set (fst (claimBatchForSummarization limit tbl))" "id_col e = i"
    by auto
  then have "e \<in> set tbl" by (simp add: claim_batch_subset)
  with e have "e\<lparr>status := Summarizing\<rparr> \<in> set (snd (claimBatchForSummarization limit tbl))"
    by (subst claim_snd) (auto simp: image_iff intro!: bexI [of _ e])
  with e show "\<exists>r\<in>set (snd (claimBatchForSummarization limit tbl)). id_col r = i \<and> status r \<noteq> Failed"
    by (intro bexI [of _ "e\<lparr>status := Summarizing\<rparr>"]) simp_all
qed

lemma fold_groups_run:
  assumes "event_queue_run m l tbl"
    and "distinct (map id_col (concat (map snd groups)))"
    and "open_ids (map id_col (concat (map snd groups))) tbl"
  shows "event_queue_run m l
     (snd (fold (\<lambda>(sid, events) (v, t). summarizeSessionEvents env m now sid events v t)
             groups (w, tbl)))"
  using assms
proof (induction groups arbitrary: w tbl)
  case Nil
  then show ?case by simp
next
  case (Cons g gs)
  obtain sid events where g: "g = (sid, events)" by (cases g)
  obtain w' tbl' where step: "summarizeSessionEvents env m now sid events w tbl = (w', tbl')"
    by (cases "summarizeSessionEvents env m now sid events w tbl")
  from Cons.prems(2) g have d: "distinct (map id_col events)"
    and dr: "distinct (map id_col (concat (map snd gs)))"
    and disj: "id_col ` set events \<inter> id_col ` set (concat (map snd gs)) = {}"
    by auto
  from Cons.prems(3) g have o: "open_ids (map id_col events) tbl"
    and orest: "open_ids (map id_col (concat (map snd gs))) tbl"
    by (auto simp: open_ids_def)
  from summarizeSessionEvents_run [OF Cons.prems(1) o d, of env now sid w] step
  have run': "event_queue_run m l tbl'" by simp
  have "open_ids (map id_col (concat (map snd gs))) tbl'"
  proof (rule open_ids_keep [OF orest])
    fix r assume r: "r \<in> set tbl" "id_col r \<in> set (map id_col (concat (map snd gs)))"
    with disj have "id_col r \<notin> id_col ` set events" by auto
    with r(1) have "r \<in> set (snd (summarizeSessionEvents env m now sid events w tbl))"
      by (rule summarizeSessionEvents_keeps)
    with step show "r \<in> set tbl'" by simp
  qed
  with run' dr have "event_queue_run m l
     (snd (fold (\<lambda>(sid, events) (v, t). summarizeSessionEvents env m now sid events v t)
             gs (w', tbl')))"
    by (intro Cons.IH)
  then show ?case by (simp add: g step)
qed

lemma claim_ids: "map id_col (snd (claimBatchForSummarization limit tbl)) = map id_col tbl"
  by (subst claim_snd) simp

lemma event_queue_run_distinct:
  "event_queue_run m l tbl \<Longrightarrow> distinct (map id_col tbl)"
proof (induction rule: event_queue_run.induct)
  case run_empty
  show ?case by simp
next
  case (run_insertRaw tbl now sid csid data)
  then show ?case by (simp add: insertRaw_def Let_def next_rowid_fresh)
next
  case (run_claim tbl limit)
  then show ?case by (simp add: claim_ids)
next
  case (run_markCompleted tbl r now observationId)
  then show ?case by (simp add: markCompleted_def sql_update_ids)
next
  case (run_markFailed tbl r errorMessage)
  then show ?case by (simp add: markFailed_ids)
next
  case (run_release tbl now olderThanMs)
  then show ?case by (simp add: releaseStuckEvents_def Let_def sql_update_ids)
next
  case (run_deleteCompleted tbl olderThanEpoch)
  then show ?case by (simp add: deleteCompleted_def sql_delete_distinct)
qed

lemma groupBySession_set: "set (concat (map snd (groupBySession batch))) = set batch"
proof -
  have "set (concat (map snd (groupBySession batch))) = grouped (fold push_event batch [])"
    by (simp only: grouped_concat groupBySession_def)
  also have "\<dots> = set batch \<union> grouped []" by (rule grouped_fold)
  also have "\<dots> = set batch" by (simp add: grouped_def)
  finally show ?thesis .
qed

lemma processBatch_events_run:
  assumes "event_queue_run m l tbl"
  shows "event_queue_run m l (snd (processBatch_events env m now w tbl))"
proof (cases "isProcessing w")
  case True
  with assms show ?thesis by (simp add: processBatch_events_def)
next
  case False
  define w1 where "w1 = w\<lparr>isProcessing := True, batchCounter := batchCounter w + 1\<rparr>"
  define p where "p = (if batchCounter w1 mod cleanupEveryNBatches = 0
             then cleanupCompletedEvents now w1 tbl else (w1, tbl))"
  define c where "c = claimBatchForSummarization (batchSize (fst p)) (snd p)"
  have r1: "event_queue_run m l (snd p)"
    using assms run_deleteCompleted [OF assms, of "now - completedRetentionMs"]
    by (simp add: p_def cleanupCompletedEvents_def Let_def)
  then have d1: "distinct (map id_col (snd p))" by (rule event_queue_run_distinct)
  have r2: "event_queue_run m l (snd c)"
    unfolding c_def using r1 by (rule run_claim)
  have db: "distinct (map id_col (fst c))"
    unfolding c_def using d1 by (rule claim_batch_distinct)
  have ob: "open_ids (map id_col (fst c)) (snd c)"
    unfolding c_def by (rule claim_batch_open)
  have same: "set (map id_col (concat (map snd (groupBySession (fst c))))) = set (map id_col (fst c))"
    by (simp only: set_map groupBySession_set)
  have "event_queue_run m l
     (snd (fold (\<lambda>(sid, events) (v, t). summarizeSessionEvents env m now sid events v t)
             (groupBySession (fst c)) (fst p, snd c)))"
  proof (rule fold_groups_run [OF r2])
    show "distinct (map id_col (concat (map snd (groupBySession (fst c)))))"
      using db by (rule groupBySession_distinct)
    show "open_ids (map id_col (concat (map snd (groupBySession (fst c))))) (snd c)"
      using ob same by (simp add: open_ids_def)
  qed
  moreover have "snd (processBatch_events env m now w tbl) =
      (if fst c = [] then snd c
       else snd (fold (\<lambda>(sid, events) (v, t). summarizeSessionEvents env m now sid events v t)
                 (groupBySession (fst c)) (fst p, snd c)))"
    unfolding processBatch_events_snd [OF False] Let_def c_def p_def w1_def by (rule refl)
  ultimately show ?thesis using r2 by simp
qed


lemma start_events_run:
  "event_queue_run m l tbl \<Longrightarrow> event_queue_run m l (snd (start_events now w tbl))"
  by (simp add: start_events_def Let_def run_release)

lemma markCompleted_summary_keeps:
  "r \<in> set t \<Longrightarrow> id_col r \<noteq> i \<Longrightarrow> r \<in> set (markCompleted_summary now t i sm)"
  by (auto simp: markCompleted_summary_def sql_update_def image_iff intro!: bexI [of _ r])

lemma summarizeRequest_keeps:
  "r \<in> set t \<Longrightarrow> id_col r \<noteq> id_col request \<Longrightarrow>
   r \<in> set (snd (summarizeRequest env m now request w t))"
  by (auto simp: summarizeRequest_def Let_def markFailed_keeps markCompleted_summary_keeps
        split: sum.splits option.splits)

lemma summarizeRequest_srun:
  assumes "summary_queue_run m t" "r \<in> set t" "id_col r = id_col request" "status r = Summarizing"
  shows "summary_queue_run m (snd (summarizeRequest env m now request w t))"
proof -
  from assms have ne: "status r \<noteq> Failed" by simp
  have f: "summary_queue_run m (markFailed m t (id_col request) msg)" for msg
    using srun_markFailed [OF assms(1,2) ne, of msg] assms(3) by simp
  have c: "summary_queue_run m (markCompleted_summary now t (id_col request) sm)" for sm
    using srun_markCompleted [OF assms(1,2) ne, of now sm] assms(3) by simp
  show ?thesis
    by (auto simp: summarizeRequest_def Let_def f c split: sum.splits option.splits)
qed

lemma summarizeRequest_grun:
  assumes "guarded_summary_run m t" "r \<in> set t" "id_col r = id_col request" "status r = Summarizing"
  shows "guarded_summary_run m (snd (summarizeRequest env m now request w t))"
proof -
  from assms have a: "status r \<in> {Pending, Summarizing}" by simp
  have f: "guarded_summary_run m (markFailed m t (id_col request) msg)" for msg
    using grun_markFailed [OF assms(1,2) a, of msg] assms(3) by simp
  have c: "guarded_summary_run m (markCompleted_summary now t (id_col request) sm)" for sm
    using assms(1) by (rule grun_markCompleted)
  show ?thesis
    by (auto simp: summarizeRequest_def Let_def f c split: sum.splits option.splits)
qed

lemma claim_batch_claimed:
  "claimed_ids (map id_col (fst (claimBatchForSummarization limit tbl)))
     (snd (claimBatchForSummarization limit tbl))"
  unfolding claimed_ids_def
proof
  fix i assume "i \<in> set (map id_col (fst (claimBatchForSummarization limit tbl)))"
  then obtain e where e: "e \<in> set (fst (claimBatchForSummarization limit tbl))" "id_col e = i"
    by auto
  then have "e \<in> set tbl" by (simp add: claim_batch_subset)
  with e have "e\<lparr>status := Summarizing\<rparr> \<in> set (snd (claimBatchForSummarization limit tbl))"
    by (subst claim_snd) (auto simp: image_iff intro!: bexI [of _ e])
  with e show "\<exists>r\<in>set (snd (claimBatchForSummarization limit tbl)). id_col r = i \<and> status r = Summarizing"
    by (intro bexI [of _ "e\<lparr>status := Summarizing\<rparr>"]) simp_all
qed

lemma fold_requests_run:
  assumes step: "\<And>t r request w. P t \<Longrightarrow> r \<in> set t \<Longrightarrow> id_col r = id_col request \<Longrightarrow>
              status r = Summarizing \<Longrightarrow> P (snd (summarizeRequest env m now request w t))"
    and "P tbl" "distinct (map id_col batch)" "claimed_ids (map id_col batch) tbl"
  shows "P (snd (fold (\<lambda>request (v, t). summarizeRequest env m now request v t) batch (w, tbl)))"
  using assms(2-)
proof (induction batch arbitrary: w tbl)
  case Nil
  then show ?case by simp
next
  case (Cons request batch)
  obtain w' tbl' where s: "summarizeRequest env m now request w tbl = (w', tbl')"
    by (cases "summarizeRequest env m now request w tbl")
  from Cons.prems(3) obtain r where r: "r \<in> set tbl" "id_col r = id_col request" "status r = Summarizing"
    by (auto simp: claimed_ids_def)
  from step [OF Cons.prems(1) r, of w] s have P': "P tbl'" by simp
  have "claimed_ids (map id_col batch) tbl'"
    unfolding claimed_ids_def
  proof
    fix i assume i: "i \<in> set (map id_col batch)"
    with Cons.prems(3) obtain x where x: "x \<in> set tbl" "id_col x = i" "status x = Summarizing"
      by (auto simp: claimed_ids_def)
    from i Cons.prems(2) x(2) have "id_col x \<noteq> id_col request" by auto
    with x(1) have "x \<in> set (snd (summarizeRequest env m now request w tbl))"
      by (rule summarizeRequest_keeps)
    with s x show "\<exists>r\<in>set tbl'. id_col r = i \<and> status r = Summarizing" by auto
  qed
  with P' Cons.prems(2) have
    "P (snd (fold (\<lambda>request (v, t). summarizeRequest env m now request v t) batch (w', tbl')))"
    by (intro Cons.IH) simp_all
  then show ?case by (simp add: s)
qed

lemma processBatch_summary_snd:
  "\<not> isProcessing w \<Longrightarrow>
   snd (processBatch_summary env m now w tbl) =
     (let w1 = w\<lparr>isProcessing := True, batchCounter := batchCounter w + 1\<rparr>;
          tbl1 = (if batchCounter w1 mod staleCheckEveryNBatches = 0
                  then fst (releaseStuckRequests tbl) else tbl);
          c = claimBatchForSummarization (batchSize w1) tbl1
      in if fst c = [] then snd c
         else snd (fold (\<lambda>request (v, t). summarizeRequest env m now request v t) (fst c) (w1, snd c)))"
  by (simp add: processBatch_summary_def Let_def case_prod_beta)

lemma summary_queue_run_distinct:
  "summary_queue_run m tbl \<Longrightarrow> distinct (map id_col tbl)"
proof (induction rule: summary_queue_run.induct)
  case srun_empty
  show ?case by simp
next
  case (srun_insertRaw tbl now sid csid data)
  then show ?case by (simp add: insertRaw_summary_def Let_def next_rowid_fresh)
next
  case (srun_claim tbl limit)
  then show ?case by (simp add: claim_ids)
next
  case (srun_markCompleted tbl r now summaryId')
  then show ?case by (simp add: markCompleted_summary_def sql_update_ids)
next
  case (srun_markFailed tbl r errorMessage)
  then show ?case by (simp add: markFailed_ids)
next
  case (srun_release tbl)
  then show ?case by (simp add: releaseStuckRequests_def sql_update_ids)
qed

lemma processBatch_summary_srun:
  assumes "summary_queue_run m tbl"
  shows "summary_queue_run m (snd (processBatch_summary env m now w tbl))"
proof (cases "isProcessing w")
  case True
  with assms show ?thesis by (simp add: processBatch_summary_def)
next
  case False
  define w1 where "w1 = w\<lparr>isProcessing := True, batchCounter := batchCounter w + 1\<rparr>"
  define tbl1 where "tbl1 = (if batchCounter w1 mod staleCheckEveryNBatches = 0
                  then fst (releaseStuckRequests tbl) else tbl)"
  define c where "c = claimBatchForSummarization (batchSize w1) tbl1"
  have r1: "summary_queue_run m tbl1"
    using assms by (simp add: tbl1_def srun_release)
  then have d1: "distinct (map id_col tbl1)" by (rule summary_queue_run_distinct)
  have r2: "summary_queue_run m (snd c)" unfolding c_def using r1 by (rule srun_claim)
  have "summary_queue_run m
     (snd (fold (\<lambda>request (v, t). summarizeRequest env m now request v t) (fst c) (w1, snd c)))"
  proof (rule fold_requests_run [where P = "summary_queue_run m"])
    show "summary_queue_run m (snd c)" by (rule r2)
    show "distinct (map id_col (fst c))" unfolding c_def using d1 by (rule claim_batch_distinct)
    show "claimed_ids (map id_col (fst c)) (snd c)" unfolding c_def by (rule claim_batch_claimed)
  qed (rule summarizeRequest_srun)
  moreover have "snd (processBatch_summary env m now w tbl) =
      (if fst c = [] then snd c
       else snd (fold (\<lambda>request (v, t). summarizeRequest env m now request v t) (fst c) (w1, snd c)))"
    unfolding processBatch_summary_snd [OF False] Let_def c_def tbl1_def w1_def by (rule refl)
  ultimately show ?thesis using r2 by simp
qed

lemma processBatch_summary_grun:
  assumes "guarded_summary_run m tbl"
  shows "guarded_summary_run m (snd (processBatch_summary env m now w tbl))"
proof (cases "isProcessing w")
  case True
  with assms show ?thesis by (simp add: processBatch_summary_def)
next
  case False
  define w1 where "w1 = w\<lparr>isProcessing := True, batchCounter := batchCounter w + 1\<rparr>"
  define tbl1 where "tbl1 = (if batchCounter w1 mod staleCheckEveryNBatches = 0
                  then fst (releaseStuckRequests tbl) else tbl)"
  define c where "c = claimBatchForSummarization (batchSize w1) tbl1"
  have r1: "guarded_summary_run m tbl1"
    using assms by (simp add: tbl1_def grun_release)
  then have d1: "distinct (map id_col tbl1)"
    using guarded_summary_run_inv by (simp add: guarded_inv_def)
  have r2: "guarded_summary_run m (snd c)" unfolding c_def using r1 by (rule grun_claim)
  have "guarded_summary_run m
     (snd (fold (\<lambda>request (v, t). summarizeRequest env m now request v t) (fst c) (w1, snd c)))"
  proof (rule fold_requests_run [where P = "guarded_summary_run m"])
    show "guarded_summary_run m (snd c)" by (rule r2)
    show "distinct (map id_col (fst c))" unfolding c_def using d1 by (rule claim_batch_distinct)
    show "claimed_ids (map id_col (fst c)) (snd c)" unfolding c_def by (rule claim_batch_claimed)
  qed (rule summarizeRequest_grun)
  moreover have "snd (processBatch_summary env m now w tbl) =
      (if fst c = [] then snd c
       else snd (fold (\<lambda>request (v, t). summarizeRequest env m now request v t) (fst c) (w1, snd c)))"
    unfolding processBatch_summary_snd [OF False] Let_def c_def tbl1_def w1_def by (rule refl)
  ultimately show ?thesis using r2 by simp
qed

lemma start_summary_run:
  "summary_queue_run m tbl \<Longrightarrow> summary_queue_run m (snd (start_summary w tbl))"
  "guarded_summary_run m tbl \<Longrightarrow> guarded_summary_run m (snd (start_summary w tbl))"
  by (simp_all add: start_summary_def Let_def srun_release grun_release)

section \<open>The retry budget of every run\<close>

text \<open>
  C2.  On a table with distinct keys, \<open>markFailed\<close> for the key of any row of the
  table keeps all other rows, adds exactly one to the \<open>retry_count\<close> of that row,
  records the message, and sets the status to \<open>Failed\<close> when the new count has reached
  \<open>maxRetries\<close> and to \<open>Pending\<close> otherwise.  Consequently, with a budget of at least
  one retry, every \<open>Failed\<close> row of every run of the tool-event queue and of the
  summary queue has \<open>retry_count = maxRetries\<close>; and the runs contain what the
  workers do: \<open>start()\<close> and a tick of either worker, with any collaborators, lead from
  a run to a run.
\<close>

theorem markFailed_retry_budget:
  "(\<forall>k<length tbl. distinct (map id_col tbl) \<longrightarrow>
      (let tbl' = markFailed maxRetries tbl (id_col (tbl ! k)) msg
       in length tbl' = length tbl \<and>
          tbl' ! k = (tbl ! k)\<lparr>status := (if maxRetries \<le> retry_count (tbl ! k) + 1 then Failed else Pending),
                              retry_count := retry_count (tbl ! k) + 1,
                              error_message := Some msg\<rparr> \<and>
          (\<forall>j<length tbl. j \<noteq> k \<longrightarrow> tbl' ! j = tbl ! j))) \<and>
   (0 < maxRetries \<longrightarrow>
      (\<forall>r\<in>set events. event_queue_run maxRetries maxResponseLength events \<longrightarrow>
          status r = Failed \<longrightarrow> retry_count r = maxRetries) \<and>
      (\<forall>r\<in>set requests. summary_queue_run maxRetries requests \<longrightarrow>
          status r = Failed \<longrightarrow> retry_count r = maxRetries)) \<and>
   (event_queue_run maxRetries maxResponseLength events \<longrightarrow>
      event_queue_run maxRetries maxResponseLength (snd (start_events now w events)) \<and>
      event_queue_run maxRetries maxResponseLength
        (snd (processBatch_events env maxRetries now w events))) \<and>
   (summary_queue_run maxRetries requests \<longrightarrow>
      summary_queue_run maxRetries (snd (start_summary w' requests)) \<and>
      summary_queue_run maxRetries (snd (processBatch_summary env maxRetries now w' requests)))"
proof (intro conjI allI impI ballI)
  fix k assume k: "k < length tbl" and d: "distinct (map id_col tbl)"
  from k have mem: "tbl ! k \<in> set tbl" by simp
  have other: "id_col (tbl ! j) \<noteq> id_col (tbl ! k)" if "j < length tbl" "j \<noteq> k" for j
    using d k that by (simp add: distinct_conv_nth)
  show "let tbl' = markFailed maxRetries tbl (id_col (tbl ! k)) msg
       in length tbl' = length tbl \<and>
          tbl' ! k = (tbl ! k)\<lparr>status := (if maxRetries \<le> retry_count (tbl ! k) + 1 then Failed else Pending),
                              retry_count := retry_count (tbl ! k) + 1,
                              error_message := Some msg\<rparr> \<and>
          (\<forall>j<length tbl. j \<noteq> k \<longrightarrow> tbl' ! j = tbl ! j)"
    unfolding Let_def markFailed_eq [OF d mem]
    using k other by simp
next
  fix r assume "0 < maxRetries" "r \<in> set events" "event_queue_run maxRetries maxResponseLength events"
    "status r = Failed"
  then show "retry_count r = maxRetries"
    using event_queue_run_inv [of maxRetries maxResponseLength events]
    by (auto simp: retry_budget_inv_def list_all_iff)
next
  fix r assume "0 < maxRetries" "r \<in> set requests" "summary_queue_run maxRetries requests"
    "status r = Failed"
  then show "retry_count r = maxRetries"
    using summary_queue_run_inv [of maxRetries requests]
    by (auto simp: retry_budget_inv_def list_all_iff)
next
  assume "event_queue_run maxRetries maxResponseLength events"
  then show "event_queue_run maxRetries maxResponseLength (snd (start_events now w events))"
    by (rule start_events_run)
next
  assume "event_queue_run maxRetries maxResponseLength events"
  then show "event_queue_run maxRetries maxResponseLength
        (snd (processBatch_events env maxRetries now w events))"
    by (rule processBatch_events_run)
next
  assume "summary_queue_run maxRetries requests"
  then show "summary_queue_run maxRetries (snd (start_summary w' requests))"
    by (rule start_summary_run)
next
  assume "summary_queue_run maxRetries requests"
  then show "summary_queue_run maxRetries (snd (processBatch_summary env maxRetries now w' requests))"
    by (rule processBatch_summary_srun)
qed


lemma claim_singleton:
  "status r = Pending \<Longrightarrow> snd (claimBatchForSummarization (Suc n) [r]) = [r\<lparr>status := Summarizing\<rparr>]"
  by (simp add: claimBatchForSummarization_def sql_select_def sql_update_def Let_def)

lemma markFailed_singleton:
  "id_col r = i \<Longrightarrow> markFailed m [r] i msg =
     [r\<lparr>status := (if m \<le> retry_count r + 1 then Failed else Pending),
        retry_count := retry_count r + 1, error_message := Some msg\<rparr>]"
  by (simp add: markFailed_def sql_get_def sql_update_def Let_def)

lemma event_retry_cycle:
  assumes "event_queue_run m l [r]" "status r = Pending"
  shows "event_queue_run m l
     [r\<lparr>status := (if m \<le> retry_count r + 1 then Failed else Pending),
        retry_count := retry_count r + 1, error_message := Some msg\<rparr>]"
proof -
  have "event_queue_run m l [r\<lparr>status := Summarizing\<rparr>]"
    using run_claim [OF assms(1), of "Suc 0"] assms(2) by (simp add: claim_singleton)
  then have "event_queue_run m l
      (markFailed m [r\<lparr>status := Summarizing\<rparr>] (id_col (r\<lparr>status := Summarizing\<rparr>)) msg)"
    by (rule run_markFailed) simp_all
  then show ?thesis by (simp add: markFailed_singleton)
qed

lemma summary_retry_cycle:
  assumes "summary_queue_run m [r]" "status r = Pending"
  shows "summary_queue_run m
     [r\<lparr>status := (if m \<le> retry_count r + 1 then Failed else Pending),
        retry_count := retry_count r + 1, error_message := Some msg\<rparr>]"
proof -
  have "summary_queue_run m [r\<lparr>status := Summarizing\<rparr>]"
    using srun_claim [OF assms(1), of "Suc 0"] assms(2) by (simp add: claim_singleton)
  then have "summary_queue_run m
      (markFailed m [r\<lparr>status := Summarizing\<rparr>] (id_col (r\<lparr>status := Summarizing\<rparr>)) msg)"
    by (rule srun_markFailed) simp_all
  then show ?thesis by (simp add: markFailed_singleton)
qed

lemma sample_failed_run: "event_queue_run 3 50000 [sample_failed]"
proof -
  have "event_queue_run 3 50000 (snd (insertRaw 50000 0 [] 7 ''c'' sample_input))"
    by (rule run_insertRaw) (rule run_empty)
  then have "event_queue_run 3 50000 [sample_event 1 7 Pending 0 0]"
    by (simp add: insertRaw_def sample_input_def sample_event_def next_rowid_def Let_def
        default_retry_count_def or_null_string_def or_null_number_def)
  from event_retry_cycle [OF this, of "''boom''"]
  have "event_queue_run 3 50000 [(sample_event 1 7 Pending 1 0)\<lparr>error_message := Some ''boom''\<rparr>]"
    by (simp add: sample_event_def)
  from event_retry_cycle [OF this, of "''boom''"]
  have "event_queue_run 3 50000 [(sample_event 1 7 Pending 2 0)\<lparr>error_message := Some ''boom''\<rparr>]"
    by (simp add: sample_event_def numeral_2_eq_2)
  from event_retry_cycle [OF this, of "''boom''"]
  show ?thesis by (simp add: sample_event_def sample_failed_def numeral_3_eq_3)
qed

lemma sample_request_run: "summary_queue_run 3 [sample_request Failed 3 (Some ''boom'')]"
proof -
  have "summary_queue_run 3 (snd (insertRaw_summary 0 [] 42 ''c'' sample_request_input))"
    by (rule srun_insertRaw) (rule srun_empty)
  then have "summary_queue_run 3 [sample_request Pending 0 None]"
    by (simp add: insertRaw_summary_def sample_request_input_def sample_request_def next_rowid_def
        Let_def or_null_string_def)
  from summary_retry_cycle [OF this, of "''boom''"]
  have "summary_queue_run 3 [sample_request Pending 1 (Some ''boom'')]"
    by (simp add: sample_request_def)
  from summary_retry_cycle [OF this, of "''boom''"]
  have "summary_queue_run 3 [sample_request Pending 2 (Some ''boom'')]"
    by (simp add: sample_request_def numeral_2_eq_2)
  from summary_retry_cycle [OF this, of "''boom''"]
  show ?thesis by (simp add: sample_request_def numeral_3_eq_3)
qed

theorem markFailed_retry_budget_witness:
  "distinct (map id_col sample_queue) \<and>
   markFailed 3 sample_queue (id_col (sample_queue ! 2)) ''boom'' ! 2 =
     (sample_event 3 7 Pending 1 5)\<lparr>error_message := Some ''boom''\<rparr> \<and>
   markFailed 3 sample_queue (id_col (sample_queue ! 2)) ''boom'' ! 1 = sample_queue ! 1 \<and>
   event_queue_run 3 50000 [sample_failed] \<and> status sample_failed = Failed \<and>
   retry_count sample_failed = 3 \<and>
   summary_queue_run 3 [sample_request Failed 3 (Some ''boom'')] \<and>
   retry_count (sample_request Failed 3 (Some ''boom'')) = 3 \<and>
   event_queue_run 3 50000
     (snd (processBatch_events sample_env 3 50 (new_RawEventSummarizer None) [sample_failed])) \<and>
   summary_queue_run 3
     (snd (processBatch_summary sample_env 3 50 (new_RawSummarySummarizer None)
        [sample_request Failed 3 (Some ''boom'')]))"
proof -
  have d: "distinct (map id_col sample_queue)"
    by (simp add: sample_queue_def sample_event_def)
  have f: "status sample_failed = Failed" by (simp add: sample_failed_def sample_event_def)
  have g: "status (sample_request Failed 3 (Some ''boom'')) = Failed" by (simp add: sample_request_def)
  note t = markFailed_retry_budget [where tbl=sample_queue and maxRetries=3 and msg="''boom''"
      and events="[sample_failed]" and maxResponseLength=50000
      and requests="[sample_request Failed 3 (Some ''boom'')]" and env=sample_env and now=50
      and w="new_RawEventSummarizer None" and w'="new_RawSummarySummarizer None"]
  have len: "2 < length sample_queue" by (simp add: sample_queue_def)
  note p = t [THEN conjunct1, rule_format, OF len d, unfolded Let_def]
  from p have "markFailed 3 sample_queue (id_col (sample_queue ! 2)) ''boom'' ! 2 =
       (sample_event 3 7 Pending 1 5)\<lparr>error_message := Some ''boom''\<rparr>"
    by (simp add: sample_queue_def sample_event_def)
  moreover from p have "\<forall>j<length sample_queue. j \<noteq> 2 \<longrightarrow>
      markFailed 3 sample_queue (id_col (sample_queue ! 2)) ''boom'' ! j = sample_queue ! j"
    by simp
  then have "markFailed 3 sample_queue (id_col (sample_queue ! 2)) ''boom'' ! 1 = sample_queue ! 1"
    by (simp add: sample_queue_def)
  moreover from t sample_failed_run f have "retry_count sample_failed = 3" by simp
  moreover from t sample_request_run g have "retry_count (sample_request Failed 3 (Some ''boom'')) = 3"
    by simp
  moreover from t sample_failed_run have "event_queue_run 3 50000
     (snd (processBatch_events sample_env 3 50 (new_RawEventSummarizer None) [sample_failed]))"
    by blast
  moreover from t sample_request_run have "summary_queue_run 3
     (snd (processBatch_summary sample_env 3 50 (new_RawSummarySummarizer None)
        [sample_request Failed 3 (Some ''boom'')]))"
    by blast
  ultimately show ?thesis using d f sample_failed_run sample_request_run by simp
qed

section \<open>The duplicate guard of every run\<close>

text \<open>
  C7 (amended).  \<open>hasPendingForSession\<close> is true exactly when some row of the session
  is \<open>Pending\<close> or \<open>Summarizing\<close>.  \<open>insertRaw\<close> never rejects: it appends one
  \<open>Pending\<close> row for the session to the table it is given.  When every insert is made
  only after \<open>hasPendingForSession\<close> has answered false, the check being the caller's,
  at most one row per session is active at every moment of the run; \<open>start()\<close> and the
  ticks of the summary worker, with any collaborators, lead from such a run to such a
  run.
\<close>

theorem summary_insert_guard:
  "(hasPendingForSession tbl sid \<longleftrightarrow>
      (\<exists>r\<in>set tbl. session_db_id r = sid \<and> (status r = Pending \<or> status r = Summarizing))) \<and>
   snd (insertRaw_summary now tbl sid csid data) =
     tbl @ [last (snd (insertRaw_summary now tbl sid csid data))] \<and>
   status (last (snd (insertRaw_summary now tbl sid csid data))) = Pending \<and>
   session_db_id (last (snd (insertRaw_summary now tbl sid csid data))) = sid \<and>
   (guarded_summary_run maxRetries requests \<longrightarrow> one_active_per_session requests) \<and>
   (guarded_summary_run maxRetries requests \<longrightarrow>
      guarded_summary_run maxRetries (snd (start_summary w requests)) \<and>
      guarded_summary_run maxRetries (snd (processBatch_summary env maxRetries now' w requests)))"
proof (intro conjI impI)
  show "hasPendingForSession tbl sid \<longleftrightarrow>
      (\<exists>r\<in>set tbl. session_db_id r = sid \<and> (status r = Pending \<or> status r = Summarizing))"
    by (rule hasPendingForSession_iff)
  assume run: "guarded_summary_run maxRetries requests"
  then show "one_active_per_session requests"
    using guarded_summary_run_inv by (simp add: guarded_inv_def)
  from run show "guarded_summary_run maxRetries (snd (start_summary w requests))"
    by (rule start_summary_run)
  from run show "guarded_summary_run maxRetries
      (snd (processBatch_summary env maxRetries now' w requests))"
    by (rule processBatch_summary_grun)
qed (simp_all add: insertRaw_summary_def Let_def)

theorem summary_insert_guard_witness:
  "guarded_summary_run 3 [sample_request Summarizing 0 None] \<and>
   one_active_per_session [sample_request Summarizing 0 None] \<and>
   hasPendingForSession [sample_request Summarizing 0 None] 42 \<and>
   guarded_summary_run 3
     (snd (processBatch_summary sample_env 3 50 (new_RawSummarySummarizer None)
        [sample_request Summarizing 0 None]))"
proof -
  have "guarded_summary_run 3 (snd (insertRaw_summary 0 [] 42 ''c'' sample_request_input))"
    by (rule grun_insertRaw [OF grun_empty]) (simp add: hasPendingForSession_def sql_count_def)
  then have "guarded_summary_run 3 [sample_request Pending 0 None]"
    by (simp add: insertRaw_summary_def sample_request_input_def sample_request_def next_rowid_def
        Let_def or_null_string_def)
  from grun_claim [OF this, of 5]
  have run: "guarded_summary_run 3 [sample_request Summarizing 0 None]"
    by (simp add: claim_singleton sample_request_def numeral_eq_Suc)
  note t = summary_insert_guard [where tbl="[sample_request Summarizing 0 None]" and sid=42
      and maxRetries=3 and requests="[sample_request Summarizing 0 None]" and env=sample_env
      and now'=50 and w="new_RawSummarySummarizer None"]
  from t run have one: "one_active_per_session [sample_request Summarizing 0 None]" by blast
  from t have "hasPendingForSession [sample_request Summarizing 0 None] 42"
    by (simp add: sample_request_def)
  moreover from t run have "guarded_summary_run 3
     (snd (processBatch_summary sample_env 3 50 (new_RawSummarySummarizer None)
        [sample_request Summarizing 0 None]))"
    by blast
  ultimately show ?thesis using run one by simp
qed

section \<open>Terminating a tracked process\<close>

text \<open>
  C9.  The claim is that \<open>terminateProcess\<close> returns \<^verbatim>\<open>true\<close> if and only if the pid
  is gone when the call returns.  For a tracked child that is alive and ignores the
  polite signal, the call with the default timeout returns \<^verbatim>\<open>true\<close> although the
  process still exists: \<^verbatim>\<open>proc.kill('SIGTERM')\<close> sets \<open>killed\<close>, and \<open>waitForExit\<close>
  resolves at once for a handle that is \<open>killed\<close>, so neither the wait, nor the
  forceful signal, nor the probe \<open>verifyProcessDead\<close> is reached.
\<close>

theorem terminateProcess_true_while_alive:
  "terminateProcess sample_tracker 7 default_gracefulTimeoutMs =
     (True, sample_tracker(7 := None), Some (stubborn_child\<lparr>killed := True\<rparr>)) \<and>
   os_alive (stubborn_child\<lparr>killed := True\<rparr>)"
  by (simp add: terminateProcess_def sample_tracker_def stubborn_child_def kill_proc_def
        waitForExit_def sooner_def Let_def default_gracefulTimeoutMs_def)

text \<open>The parts of the claim that the code does meet: without a tracked process the
  result is \<^verbatim>\<open>true\<close>, and the result \<^verbatim>\<open>false\<close> is given only for a process that still
  exists.  The last lemma is the defect in general: for every tracked process that is
  alive the result is \<^verbatim>\<open>true\<close>.\<close>

lemma terminateProcess_untracked:
  "trackedProcesses sid = None \<Longrightarrow>
   terminateProcess trackedProcesses sid t = (True, trackedProcesses, None)"
  by (simp add: terminateProcess_def)

lemma terminateProcess_false_alive:
  "fst (terminateProcess trackedProcesses sid t) = False \<Longrightarrow>
   \<exists>p. snd (snd (terminateProcess trackedProcesses sid t)) = Some p \<and> os_alive p"
  by (auto simp: terminateProcess_def Let_def verifyProcessDead_def case_prod_beta
        split: option.splits if_splits)

lemma terminateProcess_live_returns_true:
  assumes "trackedProcesses sid = Some tracked" "os_alive (process tracked)"
  shows "fst (terminateProcess trackedProcesses sid t)"
  using assms
  by (simp add: terminateProcess_def Let_def kill_proc_def waitForExit_def case_prod_beta)

end
